theory Spec2Isabelle
  imports Main "HOL-Library.Monad_Syntax" "HOL-Library.Word"
begin

section \<open>Sparse set storage (Utils/SparseSet.h)\<close>

text \<open>
  The class template \<open>SparseSetBase<IDType>\<close> holds \<open>_sparse\<close> (a \<open>std::vector<int>\<close>
  mapping an id to its index in the dense arrays, \<open>-1\<close> when the id is absent) and
  \<open>_denseEntities\<close>; \<open>SparseSet<ElemType, IDType>\<close> derives from it and adds \<open>_dense\<close>.
  The derived class is a record extension. Isabelle names cannot begin with an
  underscore, so the members lose theirs.

  The identifier type \<open>IDType\<close> is a template parameter, and a type parameter here:
  an unsigned machine integer of any width, \<open>'w word\<close>. (Its instantiation
  \<open>EntityID\<close> is declared outside the sources at hand; the specification describes
  it as a non-negative integer.) The other integer types are those of the 64-bit
  Windows target of this Direct3D program: \<open>int\<close> has 32 bits, \<open>size_t\<close> has 64.
  A vector has fewer than \<open>2^64\<close> elements, so its size is a \<open>nat\<close> that a \<open>size_t\<close>
  holds exactly; every conversion from it to a narrower type is written out.

  Every \<open>operator[]\<close> of the source is unchecked. An access outside the vector is
  undefined behaviour in C++; the model makes it the result \<open>None\<close>.
\<close>

record (overloaded) 'w SparseSetBase =
  sparse :: "int list"
  denseEntities :: "'w word list"

record (overloaded) ('a, 'w) SparseSet = "'w SparseSetBase" +
  dense :: "'a list"

definition empty_set :: "('a, 'w) SparseSet" where
  "empty_set = \<lparr>sparse = [], denseEntities = [], dense = []\<rparr>"

text \<open>
  \<open>v[i]\<close>, read and written, for an index of the id type (converted to \<open>size_t\<close>
  without loss), and for an \<open>int\<close> index: that one is converted to \<open>size_t\<close> too, so
  a negative one lands far beyond the end of the vector.
\<close>

definition elem :: "'a list \<Rightarrow> nat \<Rightarrow> 'a option" where
  "elem xs i = (if i < length xs then Some (xs ! i) else None)"

definition store :: "'a list \<Rightarrow> nat \<Rightarrow> 'a \<Rightarrow> 'a list option" where
  "store xs i v = (if i < length xs then Some (xs[i := v]) else None)"

definition vec_at :: "'a list \<Rightarrow> int \<Rightarrow> 'a option" where
  "vec_at xs i = (if 0 \<le> i \<and> i < int (length xs) then Some (xs ! nat i) else None)"

definition vec_store :: "'a list \<Rightarrow> int \<Rightarrow> 'a \<Rightarrow> 'a list option" where
  "vec_store xs i v = (if 0 \<le> i \<and> i < int (length xs) then Some (xs[nat i := v]) else None)"

text \<open>\<open>std::vector::resize(n, v)\<close>: cut to \<open>n\<close> elements, or pad with copies of \<open>v\<close>.\<close>

definition resize :: "nat \<Rightarrow> 'a \<Rightarrow> 'a list \<Rightarrow> 'a list" where
  "resize n v xs = (if n \<le> length xs then take n xs else xs @ replicate (n - length xs) v)"

text \<open>
  A \<open>size_t\<close> stored in an \<open>int\<close> (\<open>_sparse[entity] = _dense.size()\<close>,
  \<open>int lastDenseIndex = _dense.size() - 1\<close>): the value is reduced modulo \<open>2^32\<close> into
  the range of a 32-bit \<open>int\<close>.
\<close>

definition narrow :: "nat \<Rightarrow> int" where
  "narrow n = (let r = int n mod 2 ^ 32 in if r < 2 ^ 31 then r else r - 2 ^ 32)"

text \<open>
  \<open>entity + 1\<close>, as \<open>resize\<close> receives it. An id type narrower than \<open>int\<close> is
  promoted to \<open>int\<close> and the sum is exact; otherwise the sum is computed in the id
  type and wraps to 0 at its largest value.
\<close>

definition plus_one :: "'w::len word \<Rightarrow> nat" where
  "plus_one entity = (if LENGTH('w) < 32 then unat entity + 1 else unat (entity + 1))"

definition isPresent :: "('w::len, 'm) SparseSetBase_scheme \<Rightarrow> 'w word \<Rightarrow> bool" where
  "isPresent s entity \<longleftrightarrow>
     length (sparse s) > unat entity \<and> sparse s ! unat entity \<noteq> -1"

definition size_of :: "('w::len, 'm) SparseSetBase_scheme \<Rightarrow> nat" where
  "size_of s = length (denseEntities s)"

definition getIds :: "('w::len, 'm) SparseSetBase_scheme \<Rightarrow> 'w word list" where
  "getIds s = denseEntities s"

definition getElements :: "('a, 'w::len) SparseSet \<Rightarrow> 'a list" where
  "getElements s = dense s"

text \<open>
  \<open>addElement\<close> has a copying and a moving overload with the same body up to
  \<open>push_back\<close>/\<open>emplace_back\<close>; one definition stands for both.
  \<^verbatim>\<open>
  if (isPresent(entity)) return false;
  if (_sparse.size() <= entity) _sparse.resize(entity + 1, -1);
  _sparse[entity] = _dense.size();
  _dense.push_back(element);
  _denseEntities.push_back(entity);
  return true;
  \<close>
\<close>

definition addElement ::
    "'w::len word \<Rightarrow> 'a \<Rightarrow> ('a, 'w) SparseSet \<Rightarrow> (bool \<times> ('a, 'w) SparseSet) option" where
  "addElement entity element s =
     (if isPresent s entity then Some (False, s)
      else do {
        let sparse1 = (if length (sparse s) \<le> unat entity
                       then resize (plus_one entity) (-1) (sparse s) else sparse s);
        sparse2 \<leftarrow> store sparse1 (unat entity) (narrow (length (dense s)));
        Some (True, s\<lparr>sparse := sparse2,
                       dense := dense s @ [element],
                       denseEntities := denseEntities s @ [entity]\<rparr>)
      })"

definition getElement :: "'w::len word \<Rightarrow> ('a, 'w) SparseSet \<Rightarrow> 'a option" where
  "getElement entity s = do {
     i \<leftarrow> elem (sparse s) (unat entity);
     vec_at (dense s) i
   }"

text \<open>
  The loop at the end of \<open>removeElement\<close>:
  \<^verbatim>\<open>while (!_sparse.empty() && _sparse[_sparse.size() - 1] == -1) _sparse.pop_back();\<close>
\<close>

function trim :: "int list \<Rightarrow> int list" where
  "trim xs = (if xs \<noteq> [] \<and> last xs = -1 then trim (butlast xs) else xs)"
  by pat_completeness auto
termination
  by (relation "measure length") auto

declare trim.simps [simp del]

text \<open>
  \<open>removeElement\<close> opens with \<open>if (!_isPresent(entity)) return false;\<close>. No
  declaration of \<open>_isPresent\<close> is in the sources: the two classes declare the
  one-argument test \<open>isPresent\<close> and nothing else of that shape, and the header
  includes standard headers only. \<open>removeElement_with\<close> is the body of the function
  for a given meaning of that name, statement by statement.
  \<open>lastDenseIndex\<close> is \<open>_dense.size() - 1\<close>, computed in \<open>size_t\<close> (so \<open>2^64 - 1\<close> for an
  empty vector) and stored in an \<open>int\<close>. Both \<open>pop_back\<close> calls follow a successful
  read of the last slot, so the vectors are not empty there.
\<close>

definition removeElement_with ::
    "(('a, 'w::len) SparseSet \<Rightarrow> 'w word \<Rightarrow> bool) \<Rightarrow>
     'w word \<Rightarrow> ('a, 'w) SparseSet \<Rightarrow> (bool \<times> ('a, 'w) SparseSet) option" where
  "removeElement_with guard entity s =
     (if \<not> guard s entity then Some (False, s)
      else do {
        denseIndex \<leftarrow> elem (sparse s) (unat entity);
        let lastDenseIndex =
              narrow (if length (dense s) = 0 then 2 ^ 64 - 1 else length (dense s) - 1);
        lastElem \<leftarrow> vec_at (dense s) lastDenseIndex;
        dense1 \<leftarrow> vec_store (dense s) denseIndex lastElem;
        lastEntity \<leftarrow> vec_at (denseEntities s) lastDenseIndex;
        denseEntities1 \<leftarrow> vec_store (denseEntities s) denseIndex lastEntity;
        swapped \<leftarrow> vec_at denseEntities1 denseIndex;
        sparse1 \<leftarrow> store (sparse s) (unat swapped) denseIndex;
        let dense2 = butlast dense1;
        let denseEntities2 = butlast denseEntities1;
        sparse2 \<leftarrow> store sparse1 (unat entity) (-1);
        Some (True, s\<lparr>sparse := trim sparse2,
                       denseEntities := denseEntities2,
                       dense := dense2\<rparr>)
      })"

text \<open>
  The function as the source has it. The one-argument tests that name lookup can find
  from inside \<open>SparseSet\<close> are listed by \<open>declared_test\<close>; \<open>_isPresent\<close> is not among
  them, so the member function is ill-formed once it is instantiated and no call of
  it returns anything.
\<close>

datatype ill_formed = Undeclared string

definition declared_test ::
    "string \<Rightarrow> (('a, 'w::len) SparseSet \<Rightarrow> 'w word \<Rightarrow> bool) option" where
  "declared_test name = (if name = ''isPresent'' then Some isPresent else None)"

definition removeElement ::
    "'w::len word \<Rightarrow> ('a, 'w) SparseSet \<Rightarrow> ill_formed + (bool \<times> ('a, 'w) SparseSet) option" where
  "removeElement entity s =
     (case declared_test ''_isPresent'' of
        None \<Rightarrow> Inl (Undeclared ''_isPresent'')
      | Some guard \<Rightarrow> Inr (removeElement_with guard entity s))"

subsection \<open>Sequences of additions and the reference map\<close>

text \<open>
  A client fills a sparse set through \<open>addElement\<close>, starting from the
  default-constructed (empty) set. \<open>add_all\<close> executes such a sequence and is \<open>None\<close>
  as soon as a call leaves the vectors.
\<close>

fun add_all ::
    "('w::len word \<times> 'a) list \<Rightarrow> ('a, 'w) SparseSet \<Rightarrow> ('a, 'w) SparseSet option" where
  "add_all [] s = Some s"
| "add_all (x # xs) s =
     (case addElement (fst x) (snd x) s of None \<Rightarrow> None | Some r \<Rightarrow> add_all xs (snd r))"

text \<open>
  The specification's reading of \<open>add\<close>, on a finite map from ids to values: it fails
  without mutation when the id is present and stores the value otherwise.
\<close>

definition spec_add :: "'k \<Rightarrow> 'a \<Rightarrow> ('k \<rightharpoonup> 'a) \<Rightarrow> ('k \<rightharpoonup> 'a)" where
  "spec_add e v m = (case m e of Some _ \<Rightarrow> m | None \<Rightarrow> m(e \<mapsto> v))"

fun spec_add_all :: "('k \<times> 'a) list \<Rightarrow> ('k \<rightharpoonup> 'a) \<Rightarrow> ('k \<rightharpoonup> 'a)" where
  "spec_add_all [] m = m"
| "spec_add_all (x # xs) m = spec_add_all xs (spec_add (fst x) (snd x) m)"

text \<open>What a client can observe of a set: the value found for each present id.\<close>

definition lookup :: "('a, 'w::len) SparseSet \<Rightarrow> 'w word \<rightharpoonup> 'a" where
  "lookup s e = (if isPresent s e then getElement e s else None)"

text \<open>
  The two arrays point at each other: a sparse entry other than \<open>-1\<close> is the index of
  a dense slot owned by that id, and every dense slot is the target of its owner's
  sparse entry. \<open>consistent\<close> adds that the dense arrays are parallel.
\<close>

definition linked :: "int list \<Rightarrow> nat list \<Rightarrow> bool" where
  "linked sp de \<longleftrightarrow>
     (\<forall>e < length sp. sp ! e \<noteq> -1 \<longrightarrow>
        0 \<le> sp ! e \<and> nat (sp ! e) < length de \<and> de ! nat (sp ! e) = e) \<and>
     (\<forall>i < length de. de ! i < length sp \<and> sp ! (de ! i) = int i)"

definition consistent :: "('a, 'w::len) SparseSet \<Rightarrow> bool" where
  "consistent s \<longleftrightarrow>
     length (dense s) = length (denseEntities s) \<and>
     linked (sparse s) (map unat (denseEntities s))"

definition grown :: "nat \<Rightarrow> int list \<Rightarrow> int list" where
  "grown e sp = (if length sp \<le> e then resize (e + 1) (-1) sp else sp)"

text \<open>
  The calls of \<open>addElement\<close> in which no integer leaves its type: \<open>entity + 1\<close> does
  not wrap, and the number of elements fits the \<open>int\<close> that records it.
\<close>

definition in_range :: "'w::len word \<Rightarrow> ('a, 'w) SparseSet \<Rightarrow> bool" where
  "in_range entity s \<longleftrightarrow> plus_one entity = unat entity + 1 \<and> length (dense s) < 2 ^ 31"


section \<open>System scheduler (Managers/SystemsManager.h)\<close>

text \<open>
  The sources hold the declaration of \<open>SystemsManager\<close> only: its three members
  \<open>_systems\<close> (a \<open>std::set\<close> of owned systems ordered by \<open>LessPriority\<close>),
  \<open>_removedSystems\<close> (a queue of raw pointers) and \<open>_addedSystems\<close> (a queue of
  owned systems), and the signatures of its member functions, of which \<open>update\<close> and
  \<open>stop\<close> are \<open>const\<close>. The bodies, and the interface \<open>ISystem\<close>, are elsewhere.

  A system is known to the scheduler by its address (\<open>handle\<close>), by \<open>getPriority()\<close>
  (an \<open>int\<close>, as \<open>Experiment1System.h\<close> declares it) and by what its \<open>onUpdate\<close> asks of
  the scheduler in turn: a list of \<open>addSystem\<close>/\<open>removeSystem\<close> requests.
\<close>

type_synonym handle = nat

datatype ISystem = ISystem (address: handle) (getPriority: int) (onUpdate: "request list")
  and request = AddSystem ISystem | RemoveSystem handle

text \<open>The hooks the scheduler invokes, in the order it invokes them.\<close>

datatype 't hook = OnStart handle | OnUpdate handle 't | OnStop handle

text \<open>
  Modelled from the spec: the active set is keyed by priority and insertion sequence.
  The class declares no member that numbers insertions, and the body of the
  comparator is missing; the model pairs each element of the active set with the
  sequence number of its insertion and keeps the counter in \<open>next_sequence\<close>.
  \<open>hooks\<close> is a history variable: every hook invocation so far, oldest first.
\<close>

record 't SystemsManager =
  systems :: "(nat \<times> ISystem) list"
  removedSystems :: "handle list"
  addedSystems :: "ISystem list"
  next_sequence :: nat
  hooks :: "'t hook list"

definition new_manager :: "'t SystemsManager" where
  "new_manager = \<lparr>systems = [], removedSystems = [], addedSystems = [],
                   next_sequence = 0, hooks = []\<rparr>"

definition LessPriority :: "nat \<times> ISystem \<Rightarrow> nat \<times> ISystem \<Rightarrow> bool" where
  \<comment> \<open>Modelled from the spec: the body of the comparator \<open>LessPriority::operator()\<close> is
      missing; the active set is keyed by priority, then insertion sequence, ascending.\<close>
  "LessPriority lhs rhs \<longleftrightarrow>
     getPriority (snd lhs) < getPriority (snd rhs) \<or>
     (getPriority (snd lhs) = getPriority (snd rhs) \<and> fst lhs < fst rhs)"

text \<open>
  \<open>std::set::insert\<close>, the container the header declares for \<open>_systems\<close>: the element
  goes before the first one it is less than; an element equivalent to one already held
  is not inserted.
\<close>

fun set_insert :: "nat \<times> ISystem \<Rightarrow> (nat \<times> ISystem) list \<Rightarrow> (nat \<times> ISystem) list" where
  "set_insert x [] = [x]"
| "set_insert x (y # ys) =
     (if LessPriority x y then x # y # ys
      else if LessPriority y x then y # set_insert x ys
      else y # ys)"

definition active_handles :: "'t SystemsManager \<Rightarrow> handle list" where
  "active_handles m = map (\<lambda>e. address (snd e)) (systems m)"

definition addSystem :: "ISystem \<Rightarrow> 't SystemsManager \<Rightarrow> 't SystemsManager" where
  \<comment> \<open>Modelled from the spec: the body of \<open>SystemsManager::addSystem\<close> is missing; the
      system is placed on the add-queue.\<close>
  "addSystem system m = m\<lparr>addedSystems := addedSystems m @ [system]\<rparr>"

definition removeSystem :: "handle \<Rightarrow> 't SystemsManager \<Rightarrow> 't SystemsManager" where
  \<comment> \<open>Modelled from the spec: the body of \<open>SystemsManager::removeSystem\<close> is missing; a
      system present in the active set is put on the remove-queue and stays active
      until the queue is processed; any other handle is ignored.\<close>
  "removeSystem system m =
     (if system \<in> set (active_handles m)
      then m\<lparr>removedSystems := removedSystems m @ [system]\<rparr> else m)"

text \<open>
  Modelled from the spec: the loops of \<open>processAddedSystems\<close> and
  \<open>processRemovedSystems\<close> over their queues, whose bodies are missing.
\<close>

fun start_systems :: "ISystem list \<Rightarrow> 't SystemsManager \<Rightarrow> 't SystemsManager" where
  "start_systems [] m = m"
| "start_systems (system # queue) m =
     start_systems queue
       (m\<lparr>hooks := hooks m @ [OnStart (address system)],
          systems := set_insert (next_sequence m, system) (systems m),
          next_sequence := next_sequence m + 1\<rparr>)"

definition processAddedSystems :: "'t SystemsManager \<Rightarrow> 't SystemsManager" where
  \<comment> \<open>Modelled from the spec: the body of \<open>SystemsManager::processAddedSystems\<close> is
      missing; every system on the add-queue, in enqueue order, gets \<open>onStart\<close> and is
      inserted into the active set; the queue is left empty.\<close>
  "processAddedSystems m = start_systems (addedSystems m) (m\<lparr>addedSystems := []\<rparr>)"

fun erase_system :: "handle \<Rightarrow> (nat \<times> ISystem) list \<Rightarrow> (nat \<times> ISystem) list" where
  "erase_system h [] = []"
| "erase_system h (x # xs) = (if address (snd x) = h then xs else x # erase_system h xs)"

fun stop_systems :: "handle list \<Rightarrow> 't SystemsManager \<Rightarrow> 't SystemsManager" where
  "stop_systems [] m = m"
| "stop_systems (h # queue) m =
     stop_systems queue
       (if h \<in> set (active_handles m)
        then m\<lparr>hooks := hooks m @ [OnStop h], systems := erase_system h (systems m)\<rparr>
        else m)"

definition processRemovedSystems :: "'t SystemsManager \<Rightarrow> 't SystemsManager" where
  \<comment> \<open>Modelled from the spec: the body of \<open>SystemsManager::processRemovedSystems\<close> is
      missing; every system on the remove-queue gets \<open>onStop\<close>, is erased from the
      active set and released; the queue is left empty. A handle queued a second time
      names a system already released and is passed over.\<close>
  "processRemovedSystems m = stop_systems (removedSystems m) (m\<lparr>removedSystems := []\<rparr>)"

text \<open>
  Modelled from the spec: the loop of \<open>update\<close> over the active set, whose body is
  missing. A system's \<open>onUpdate\<close> runs its requests against the scheduler.
\<close>

fun serve :: "request \<Rightarrow> 't SystemsManager \<Rightarrow> 't SystemsManager" where
  "serve (AddSystem system) m = addSystem system m"
| "serve (RemoveSystem h) m = removeSystem h m"

fun update_systems :: "'t \<Rightarrow> (nat \<times> ISystem) list \<Rightarrow> 't SystemsManager \<Rightarrow> 't SystemsManager" where
  "update_systems dt [] m = m"
| "update_systems dt (x # xs) m =
     update_systems dt xs
       (fold serve (onUpdate (snd x)) (m\<lparr>hooks := hooks m @ [OnUpdate (address (snd x)) dt]\<rparr>))"

definition update :: "'t \<Rightarrow> 't SystemsManager \<Rightarrow> 't SystemsManager" where
  \<comment> \<open>Modelled from the spec: the body of \<open>SystemsManager::update\<close> is missing; the
      active set is walked in its order and each system's \<open>onUpdate(deltaTime)\<close> is
      invoked, which may call back \<open>addSystem\<close> and \<open>removeSystem\<close>.\<close>
  "update dt m = update_systems dt (systems m) m"

definition stop :: "'t SystemsManager \<Rightarrow> 't SystemsManager" where
  \<comment> \<open>Modelled from the spec: the body of \<open>SystemsManager::stop\<close> is missing; \<open>onStop\<close> is
      invoked on every active system, the remove-queue is not involved.\<close>
  "stop m = m\<lparr>hooks := hooks m @ map (\<lambda>e. OnStop (address (snd e))) (systems m)\<rparr>"

definition clear :: "'t SystemsManager \<Rightarrow> 't SystemsManager" where
  \<comment> \<open>Modelled from the spec: the body of \<open>SystemsManager::clear\<close> is missing; all
      systems in every state are dropped and no hook is invoked.\<close>
  "clear m = m\<lparr>systems := [], removedSystems := [], addedSystems := []\<rparr>"

text \<open>The calls a host can make, and a sequence of them run from a fresh scheduler.\<close>

datatype 't command =
  CallAddSystem ISystem | CallRemoveSystem handle | CallProcessAdded | CallProcessRemoved
  | CallUpdate 't | CallStop | CallClear

fun exec :: "'t command \<Rightarrow> 't SystemsManager \<Rightarrow> 't SystemsManager" where
  "exec (CallAddSystem system) m = addSystem system m"
| "exec (CallRemoveSystem h) m = removeSystem h m"
| "exec CallProcessAdded m = processAddedSystems m"
| "exec CallProcessRemoved m = processRemovedSystems m"
| "exec (CallUpdate dt) m = update dt m"
| "exec CallStop m = stop m"
| "exec CallClear m = clear m"

definition exec_all :: "'t command list \<Rightarrow> 't SystemsManager" where
  "exec_all cs = fold exec cs new_manager"

definition ordered :: "'t SystemsManager \<Rightarrow> bool" where
  "ordered m \<longleftrightarrow> sorted_wrt LessPriority (systems m) \<and>
     (\<forall>x \<in> set (systems m). fst x < next_sequence m)"

section \<open>The main loop (Managers/GameController.cpp)\<close>

text \<open>
  \<open>GameController::run\<close> talks to the window, the scheduler and the clock. What the
  model keeps of one pass through the loop body is the answer of \<open>m_window.update()\<close>
  and the number of clock ticks each call takes. The loop has no bound of its own: it
  ends when the window asks for it. A list of frames that never does gives \<open>None\<close>.

  \<^verbatim>\<open>
  float dt = 0;
  while (true) {
      bool needToExit = m_window.update();
      if (needToExit) break;
      m_systemsManager.processAddedSystems();
      m_systemsManager.processRemovedSystems();
      auto start = std::chrono::high_resolution_clock::now();
      m_systemsManager.update(dt);
      auto end = std::chrono::high_resolution_clock::now();
      std::chrono::duration<float> elapsed = end - start;
      dt = elapsed.count();
  }
  m_systemsManager.stop();
  \<close>

  The clock is a tick counter that each call advances by the ticks it takes; \<open>now()\<close>
  reads it. The frame time is a \<open>float\<close>: the literal \<open>0\<close> before the first pass, then
  \<open>elapsed.count()\<close>, the conversion to seconds of a difference of two clock
  readings. The conversion is kept symbolic (\<open>Measured\<close> of the difference in ticks).
\<close>

datatype deltaTime = Zero | Measured int

datatype call = WindowUpdate | ProcessAddedSystems | ProcessRemovedSystems
  | Update deltaTime | Stop

record frame =
  needToExit :: bool
  window_ticks :: nat
  added_ticks :: nat
  removed_ticks :: nat
  update_ticks :: nat

fun run_loop :: "deltaTime \<Rightarrow> int \<Rightarrow> frame list \<Rightarrow> call list option" where
  "run_loop dt clock [] = None"
| "run_loop dt clock (f # fs) =
     (let clock1 = clock + int (window_ticks f) in
      if needToExit f then Some [WindowUpdate]
      else
        let clock2 = clock1 + int (added_ticks f);
            clock3 = clock2 + int (removed_ticks f);
            start = clock3;
            clock4 = clock3 + int (update_ticks f);
            end' = clock4;
            elapsed = Measured (end' - start)
        in map_option
             (\<lambda>rest. [WindowUpdate, ProcessAddedSystems, ProcessRemovedSystems, Update dt] @ rest)
             (run_loop elapsed clock4 fs))"

definition run :: "int \<Rightarrow> frame list \<Rightarrow> call list option" where
  "run clock fs = map_option (\<lambda>calls. calls @ [Stop]) (run_loop Zero clock fs)"

text \<open>
  Two readings of a trace: the frame times that reached \<open>update\<close>, in order, and the
  calls of one complete pass through the loop body.
\<close>

fun update_arguments :: "call list \<Rightarrow> deltaTime list" where
  "update_arguments [] = []"
| "update_arguments (Update dt # cs) = dt # update_arguments cs"
| "update_arguments (c # cs) = update_arguments cs"

definition tick_calls :: "deltaTime \<Rightarrow> call list" where
  "tick_calls = (\<lambda>dt. [WindowUpdate, ProcessAddedSystems, ProcessRemovedSystems, Update dt])"


section \<open>Properties of the sparse set\<close>

subsection \<open>The trimming loop\<close>

lemma trim_length: "length (trim xs) \<le> length xs"
proof (induction xs rule: trim.induct)
  case (1 xs)
  show ?case
  proof (cases "xs \<noteq> [] \<and> last xs = -1")
    case True
    with 1 have "length (trim (butlast xs)) \<le> length (butlast xs)" by simp
    with True show ?thesis by (subst trim.simps) simp
  next
    case False
    then show ?thesis by (subst trim.simps) auto
  qed
qed

lemma trim_nth: "i < length (trim xs) \<Longrightarrow> trim xs ! i = xs ! i"
proof (induction xs rule: trim.induct)
  case (1 xs)
  show ?case
  proof (cases "xs \<noteq> [] \<and> last xs = -1")
    case True
    then have eq: "trim xs = trim (butlast xs)" by (subst trim.simps) simp
    from 1 eq True have "trim (butlast xs) ! i = butlast xs ! i" by simp
    moreover have "i < length (butlast xs)"
      using "1.prems" eq trim_length [of "butlast xs"] by simp
    ultimately show ?thesis using eq by (simp add: nth_butlast)
  next
    case False
    then have "trim xs = xs" by (subst trim.simps) auto
    then show ?thesis by simp
  qed
qed

lemma trim_keeps: "i < length xs \<Longrightarrow> xs ! i \<noteq> -1 \<Longrightarrow> i < length (trim xs)"
proof (induction xs rule: trim.induct)
  case (1 xs)
  show ?case
  proof (cases "xs \<noteq> [] \<and> last xs = -1")
    case True
    then have eq: "trim xs = trim (butlast xs)" by (subst trim.simps) simp
    have "i \<noteq> length xs - 1"
      using True "1.prems" by (auto simp: last_conv_nth)
    with "1.prems" have lt: "i < length (butlast xs)" by simp
    then have "butlast xs ! i = xs ! i" by (simp add: nth_butlast)
    with 1 True lt show ?thesis using eq by simp
  next
    case False
    then have "trim xs = xs" by (subst trim.simps) auto
    with "1.prems" show ?thesis by simp
  qed
qed

lemma trim_last: "trim xs = [] \<or> last (trim xs) \<noteq> -1"
proof (induction xs rule: trim.induct)
  case (1 xs)
  show ?case
  proof (cases "xs \<noteq> [] \<and> last xs = -1")
    case True
    then have "trim xs = trim (butlast xs)" by (subst trim.simps) simp
    with 1 True show ?thesis by simp
  next
    case False
    then have "trim xs = xs" by (subst trim.simps) auto
    with False show ?thesis by auto
  qed
qed

subsection \<open>The link between the sparse and the dense arrays\<close>

lemma linkedI:
  assumes "\<And>e. e < length sp \<Longrightarrow> sp ! e \<noteq> -1 \<Longrightarrow>
              0 \<le> sp ! e \<and> nat (sp ! e) < length de \<and> de ! nat (sp ! e) = e"
    and "\<And>i. i < length de \<Longrightarrow> de ! i < length sp \<and> sp ! (de ! i) = int i"
  shows "linked sp de"
  using assms unfolding linked_def by blast

lemma linked_fwd:
  "linked sp de \<Longrightarrow> e < length sp \<Longrightarrow> sp ! e \<noteq> -1 \<Longrightarrow>
     0 \<le> sp ! e \<and> nat (sp ! e) < length de \<and> de ! nat (sp ! e) = e"
  unfolding linked_def by blast

lemma linked_bwd:
  "linked sp de \<Longrightarrow> i < length de \<Longrightarrow> de ! i < length sp \<and> sp ! (de ! i) = int i"
  unfolding linked_def by blast

lemma length_resize [simp]: "length (resize n v xs) = n"
  by (simp add: resize_def)

lemma nth_resize:
  "i < n \<Longrightarrow> resize n v xs ! i = (if i < length xs then xs ! i else v)"
  by (auto simp: resize_def nth_append)

lemma length_grown: "length (grown e sp) = max (length sp) (e + 1)"
  by (simp add: grown_def)

lemma nth_grown:
  "j < length (grown e sp) \<Longrightarrow> grown e sp ! j = (if j < length sp then sp ! j else -1)"
  by (auto simp: grown_def nth_resize)

lemma linked_add:
  assumes l: "linked sp de" and absent: "\<not> (e < length sp \<and> sp ! e \<noteq> -1)"
  shows "linked ((grown e sp)[e := int (length de)]) (de @ [e])"
proof (rule linkedI)
  fix j
  assume j: "j < length ((grown e sp)[e := int (length de)])"
    and ne: "(grown e sp)[e := int (length de)] ! j \<noteq> -1"
  show "0 \<le> (grown e sp)[e := int (length de)] ! j \<and>
        nat ((grown e sp)[e := int (length de)] ! j) < length (de @ [e]) \<and>
        (de @ [e]) ! nat ((grown e sp)[e := int (length de)] ! j) = j"
  proof (cases "j = e")
    case True
    then show ?thesis using j by simp
  next
    case False
    with j ne have g: "j < length (grown e sp)" "grown e sp ! j \<noteq> -1" by auto
    then have jl: "j < length sp" and sj: "sp ! j \<noteq> -1"
      by (auto simp: nth_grown split: if_splits)
    from linked_fwd [OF l jl sj] False g jl show ?thesis
      by (simp add: nth_grown nth_append)
  qed
next
  fix i
  assume "i < length (de @ [e])"
  then consider "i = length de" | "i < length de" by fastforce
  then show "(de @ [e]) ! i < length ((grown e sp)[e := int (length de)]) \<and>
        (grown e sp)[e := int (length de)] ! ((de @ [e]) ! i) = int i"
  proof cases
    case 1
    then show ?thesis by (simp add: length_grown)
  next
    case 2
    from linked_bwd [OF l 2] absent have "de ! i \<noteq> e" by auto
    moreover from linked_bwd [OF l 2] have "de ! i < length (grown e sp)"
      by (simp add: length_grown max_def)
    ultimately show ?thesis using linked_bwd [OF l 2] 2
      by (simp add: nth_append nth_grown)
  qed
qed

lemma linked_trim:
  assumes l: "linked sp de"
  shows "linked (trim sp) de"
proof (rule linkedI)
  fix e
  assume e: "e < length (trim sp)" and ne: "trim sp ! e \<noteq> -1"
  from e trim_length [of sp] have "e < length sp" by simp
  with linked_fwd [OF l this] ne trim_nth [OF e]
  show "0 \<le> trim sp ! e \<and> nat (trim sp ! e) < length de \<and> de ! nat (trim sp ! e) = e"
    by simp
next
  fix i
  assume i: "i < length de"
  from linked_bwd [OF l i] have a: "de ! i < length sp" and b: "sp ! (de ! i) = int i"
    by simp_all
  from b have "sp ! (de ! i) \<noteq> -1" by simp
  from trim_keeps [OF a this] b trim_nth [of "de ! i" sp]
  show "de ! i < length (trim sp) \<and> trim sp ! (de ! i) = int i" by simp
qed

lemma linked_remove:
  assumes l: "linked sp de" and e: "e < length sp" and pe: "sp ! e \<noteq> -1"
  shows "linked (sp[last de := sp ! e, e := -1]) (butlast (de[nat (sp ! e) := last de]))"
proof -
  define d where "d = nat (sp ! e)"
  define n where "n = length de"
  define k where "k = last de"
  from linked_fwd [OF l e pe] have d: "sp ! e = int d" "d < n" "de ! d = e"
    by (simp_all add: d_def n_def)
  then have n: "0 < n" by simp
  then have k: "k = de ! (n - 1)" by (simp add: k_def n_def last_conv_nth)
  from linked_bwd [OF l, of "n - 1"] n k have kk: "k < length sp" "sp ! k = int (n - 1)"
    by (simp_all add: n_def del: of_nat_diff)
  have inj: "i = j" if "i < n" "j < n" "de ! i = de ! j" for i j
  proof -
    from linked_bwd [OF l, of i] that have "sp ! (de ! j) = int i" by (simp add: n_def)
    moreover from linked_bwd [OF l, of j] that have "sp ! (de ! j) = int j" by (simp add: n_def)
    ultimately show ?thesis by simp
  qed
  show ?thesis
    unfolding d(1) k_def [symmetric]
  proof (rule linkedI)
    fix j
    assume j: "j < length (sp[k := int d, e := -1])"
      and ne: "sp[k := int d, e := -1] ! j \<noteq> -1"
    then have je: "j \<noteq> e" and jl: "j < length sp" by auto
    show "0 \<le> sp[k := int d, e := -1] ! j \<and>
          nat (sp[k := int d, e := -1] ! j) < length (butlast (de[nat (int d) := k])) \<and>
          butlast (de[nat (int d) := k]) ! nat (sp[k := int d, e := -1] ! j) = j"
    proof (cases "j = k")
      case True
      with je d k have "d \<noteq> n - 1" by auto
      with d n have "d < n - 1" by simp
      with True je jl show ?thesis by (simp add: nth_butlast n_def)
    next
      case False
      with je jl ne have sj: "sp ! j \<noteq> -1" and same: "sp[k := int d, e := -1] ! j = sp ! j"
        by simp_all
      from linked_fwd [OF l jl sj] obtain m where
        m: "sp ! j = int m" "m < n" "de ! m = j"
        by (metis n_def nat_0_le)
      from m False k have "m \<noteq> n - 1" by auto
      moreover from m je d have "m \<noteq> d" by auto
      ultimately show ?thesis using m same by (simp add: nth_butlast n_def)
    qed
  next
    fix i
    assume "i < length (butlast (de[nat (int d) := k]))"
    then have i: "i < n - 1" by (simp add: n_def)
    show "butlast (de[nat (int d) := k]) ! i < length (sp[k := int d, e := -1]) \<and>
          sp[k := int d, e := -1] ! (butlast (de[nat (int d) := k]) ! i) = int i"
    proof (cases "i = d")
      case True
      with i kk d have "k \<noteq> e" by auto
      with True i kk show ?thesis by (simp add: nth_butlast n_def)
    next
      case False
      from i have il: "i < n" by simp
      from linked_bwd [OF l, of i] il have b: "de ! i < length sp" "sp ! (de ! i) = int i"
        by (simp_all add: n_def)
      from inj [OF il d(2)] False d have "de ! i \<noteq> e" by auto
      moreover from inj [OF il, of "n - 1"] i n k have "de ! i \<noteq> k" by auto
      ultimately show ?thesis using False b i by (simp add: nth_butlast n_def)
    qed
  qed
qed

lemma consistent_empty: "consistent empty_set"
  by (simp add: consistent_def linked_def empty_set_def)

subsection \<open>Integer conversions\<close>

lemma narrow_small: "n < 2 ^ 31 \<Longrightarrow> narrow n = int n"
proof -
  assume "n < 2 ^ 31"
  then have a: "int n < 2 ^ 31" by (metis of_nat_less_iff of_nat_numeral of_nat_power)
  then have "int n mod 2 ^ 32 = int n" by simp
  with a show ?thesis by (simp add: narrow_def)
qed

lemma plus_one_exact:
  "plus_one (e :: 'w::len word) = unat e + 1 \<longleftrightarrow> LENGTH('w) < 32 \<or> e \<noteq> -1"
proof (cases "LENGTH('w) < 32")
  case True
  then show ?thesis by (simp add: plus_one_def)
next
  case False
  show ?thesis
  proof (cases "e = -1")
    case True
    with False show ?thesis by (simp add: plus_one_def)
  next
    case ne: False
    then have "1 + e \<noteq> 0" by (simp add: add_eq_0_iff)
    from unatSuc [OF this] False ne show ?thesis
      by (simp add: plus_one_def add.commute)
  qed
qed

subsection \<open>One addition against the reference map\<close>

lemma lookup_consistent:
  assumes "consistent s"
  shows "lookup s e =
    (if unat e < length (sparse s) \<and> sparse s ! unat e \<noteq> -1
     then Some (dense s ! nat (sparse s ! unat e)) else None)"
proof (cases "unat e < length (sparse s) \<and> sparse s ! unat e \<noteq> -1")
  case True
  with assms linked_fwd [of "sparse s" "map unat (denseEntities s)" "unat e"]
  have "0 \<le> sparse s ! unat e" "nat (sparse s ! unat e) < length (dense s)"
    by (simp_all add: consistent_def)
  with True show ?thesis
    by (simp add: lookup_def isPresent_def getElement_def vec_at_def elem_def)
next
  case False
  then show ?thesis by (auto simp: lookup_def isPresent_def)
qed

lemma addElement_present: "isPresent s e \<Longrightarrow> addElement e v s = Some (False, s)"
  by (simp add: addElement_def)

lemma addElement_absent:
  assumes "\<not> isPresent s e" and "plus_one e = unat e + 1"
  shows "addElement e v s =
     Some (True, s\<lparr>sparse := (grown (unat e) (sparse s))[unat e := narrow (length (dense s))],
              dense := dense s @ [v], denseEntities := denseEntities s @ [e]\<rparr>)"
proof -
  have "unat e < length (grown (unat e) (sparse s))"
    by (simp add: length_grown)
  with assms show ?thesis
    by (simp add: addElement_def grown_def store_def)
qed

lemma consistent_addElement:
  assumes c: "consistent s" and r: "in_range e s"
  shows "\<exists>s'. addElement e v s = Some (\<not> isPresent s e, s') \<and> consistent s' \<and>
              lookup s' = spec_add e v (lookup s) \<and>
              length (dense s') \<le> length (dense s) + 1"
proof (cases "isPresent s e")
  case True
  with c have "lookup s e \<noteq> None"
    by (simp add: lookup_consistent isPresent_def)
  then have "spec_add e v (lookup s) = lookup s"
    by (auto simp: spec_add_def)
  with True c show ?thesis by (simp add: addElement_present)
next
  case False
  from r have fit: "plus_one e = unat e + 1" and small: "narrow (length (dense s)) = int (length (dense s))"
    by (simp_all add: in_range_def narrow_small)
  from c have len: "length (dense s) = length (denseEntities s)"
    and l: "linked (sparse s) (map unat (denseEntities s))"
    by (simp_all add: consistent_def)
  define s' where "s' = s\<lparr>sparse := (grown (unat e) (sparse s))[unat e := int (length (dense s))],
              dense := dense s @ [v], denseEntities := denseEntities s @ [e]\<rparr>"
  have res: "addElement e v s = Some (True, s')"
    using addElement_absent [OF False fit, of v] small by (simp add: s'_def)
  have sel: "sparse s' = (grown (unat e) (sparse s))[unat e := int (length (dense s))]"
    "dense s' = dense s @ [v]" "denseEntities s' = denseEntities s @ [e]"
    by (simp_all add: s'_def)
  from False have "\<not> (unat e < length (sparse s) \<and> sparse s ! unat e \<noteq> -1)"
    by (simp add: isPresent_def)
  from linked_add [OF l this] len have c': "consistent s'"
    by (simp add: consistent_def sel)
  from False have none: "lookup s e = None" by (simp add: lookup_def)
  have "lookup s' k = ((lookup s)(e \<mapsto> v)) k" for k
  proof (cases "k = e")
    case True
    then show ?thesis
      by (simp add: lookup_consistent [OF c'] sel length_grown less_max_iff_disj)
  next
    case ne: False
    then have une: "unat k \<noteq> unat e" by (simp add: word_unat_eq_iff)
    show ?thesis
    proof (cases "unat k < length (sparse s) \<and> sparse s ! unat k \<noteq> -1")
      case True
      with l linked_fwd [of "sparse s" "map unat (denseEntities s)" "unat k"] len
      have "nat (sparse s ! unat k) < length (dense s)" by simp
      with True ne une show ?thesis
        by (simp add: lookup_consistent [OF c'] lookup_consistent [OF c] sel
            length_grown less_max_iff_disj nth_grown nth_append)
    next
      case F: False
      with ne une show ?thesis
        by (auto simp: lookup_consistent [OF c'] lookup_consistent [OF c] sel
            length_grown less_max_iff_disj nth_grown split: if_splits)
    qed
  qed
  then have "lookup s' = (lookup s)(e \<mapsto> v)" by (intro ext) simp
  with none have "lookup s' = spec_add e v (lookup s)" by (simp add: spec_add_def)
  with res c' False show ?thesis by (simp add: sel)
qed

subsection \<open>Sequences of additions\<close>

lemma lookup_empty: "lookup empty_set = Map.empty"
  by (rule ext) (simp add: lookup_def isPresent_def empty_set_def)

lemma add_all_consistent:
  "consistent s \<Longrightarrow> length (dense s) + length xs \<le> 2 ^ 31 \<Longrightarrow>
   \<forall>x \<in> set xs. plus_one (fst x) = unat (fst x) + 1 \<Longrightarrow>
   \<exists>s'. add_all xs s = Some s' \<and> consistent s' \<and> lookup s' = spec_add_all xs (lookup s)"
proof (induction xs arbitrary: s)
  case Nil
  then show ?case by simp
next
  case (Cons x xs)
  from Cons.prems have "in_range (fst x) s" by (simp add: in_range_def)
  from consistent_addElement [OF Cons.prems(1) this, of "snd x"] obtain s1 where
    s1: "addElement (fst x) (snd x) s = Some (\<not> isPresent s (fst x), s1)" "consistent s1"
      "lookup s1 = spec_add (fst x) (snd x) (lookup s)"
      "length (dense s1) \<le> length (dense s) + 1"
    by blast
  from s1(4) Cons.prems(2) have "length (dense s1) + length xs \<le> 2 ^ 31" by simp
  from Cons.IH [OF s1(2) this] Cons.prems(3) s1(1,3) show ?case by simp
qed

lemma isPresent_lookup: "consistent s \<Longrightarrow> isPresent s k \<longleftrightarrow> k \<in> dom (lookup s)"
  by (auto simp: lookup_consistent isPresent_def split: if_splits)

lemma consistent_distinct:
  assumes "consistent s"
  shows "distinct (denseEntities s)"
proof -
  from assms have l: "linked (sparse s) (map unat (denseEntities s))"
    by (simp add: consistent_def)
  have "i = j" if "i < length (denseEntities s)" "j < length (denseEntities s)"
    "denseEntities s ! i = denseEntities s ! j" for i j
  proof -
    from linked_bwd [OF l, of i] that
    have "sparse s ! unat (denseEntities s ! j) = int i" by simp
    moreover from linked_bwd [OF l, of j] that
    have "sparse s ! unat (denseEntities s ! j) = int j" by simp
    ultimately show ?thesis by simp
  qed
  then show ?thesis by (simp add: distinct_conv_nth) blast
qed

lemma dom_lookup:
  assumes "consistent s"
  shows "dom (lookup s) = set (denseEntities s)"
proof -
  from assms have l: "linked (sparse s) (map unat (denseEntities s))"
    by (simp add: consistent_def)
  have "k \<in> set (denseEntities s)" if "isPresent s k" for k
  proof -
    from that have p: "unat k < length (sparse s)" "sparse s ! unat k \<noteq> -1"
      by (simp_all add: isPresent_def)
    from linked_fwd [OF l p]
    have i: "nat (sparse s ! unat k) < length (denseEntities s)"
      and m: "map unat (denseEntities s) ! nat (sparse s ! unat k) = unat k"
      by simp_all
    from m i have "unat (denseEntities s ! nat (sparse s ! unat k)) = unat k"
      by simp
    then have "denseEntities s ! nat (sparse s ! unat k) = k"
      by (simp add: word_unat_eq_iff)
    with nth_mem [OF i] show ?thesis by simp
  qed
  moreover have "isPresent s k" if "k \<in> set (denseEntities s)" for k
  proof -
    from that obtain i where "i < length (denseEntities s)" "denseEntities s ! i = k"
      by (auto simp: in_set_conv_nth)
    with linked_bwd [OF l, of i] show ?thesis by (auto simp: isPresent_def)
  qed
  ultimately show ?thesis using isPresent_lookup [OF assms] by blast
qed

lemma dom_spec_add_all: "dom (spec_add_all xs m) = dom m \<union> fst ` set xs"
proof (induction xs arbitrary: m)
  case Nil
  then show ?case by simp
next
  case (Cons x xs)
  have "dom (spec_add (fst x) (snd x) m) = insert (fst x) (dom m)"
    by (auto simp: spec_add_def split: option.splits)
  with Cons show ?case by auto
qed

lemma dense_empty: "dense empty_set = []"
  by (simp add: empty_set_def)

lemma add_all_empty:
  assumes "length xs \<le> 2 ^ 31"
    and "\<forall>x \<in> set xs. plus_one (fst x) = unat (fst x) + 1"
  shows "\<exists>s. add_all xs empty_set = Some s \<and> consistent s \<and>
             lookup s = spec_add_all xs Map.empty"
  using add_all_consistent [OF consistent_empty, of xs] assms
  by (simp add: dense_empty lookup_empty)

subsection \<open>The body of removeElement under the reading isPresent\<close>

text \<open>
  With \<open>_isPresent\<close> read as \<open>isPresent\<close>, a removal from a consistent set of at most
  \<open>2^31\<close> elements stays inside the vectors, returns whether the id was present and
  leaves a consistent set.
\<close>

lemma removeElement_with_present:
  assumes c: "consistent s" and p: "isPresent s e" and small: "length (dense s) \<le> 2 ^ 31"
  shows "removeElement_with isPresent e s = Some (True,
     s\<lparr>sparse := trim ((sparse s)[unat (last (denseEntities s)) := sparse s ! unat e,
                                  unat e := -1]),
       denseEntities := butlast ((denseEntities s)[nat (sparse s ! unat e) := last (denseEntities s)]),
       dense := butlast ((dense s)[nat (sparse s ! unat e) := last (dense s)])\<rparr>)"
proof -
  from c have len: "length (dense s) = length (denseEntities s)"
    and l: "linked (sparse s) (map unat (denseEntities s))"
    by (simp_all add: consistent_def)
  from p have e: "unat e < length (sparse s)" "sparse s ! unat e \<noteq> -1"
    by (simp_all add: isPresent_def)
  from linked_fwd [OF l e] have d: "0 \<le> sparse s ! unat e"
    "nat (sparse s ! unat e) < length (denseEntities s)"
    by simp_all
  then have ne: "denseEntities s \<noteq> []" "dense s \<noteq> []" using len by auto
  from linked_bwd [OF l, of "length (denseEntities s) - 1"] ne
  have k: "unat (last (denseEntities s)) < length (sparse s)"
    by (simp add: last_conv_nth)
  have d': "sparse s ! unat e < int (length (denseEntities s))" using d by linarith
  from ne small have "length (dense s) - 1 < 2 ^ 31" by (cases "dense s") auto
  then have nar: "narrow (length (dense s) - 1) = int (length (dense s) - 1)"
    by (rule narrow_small)
  have nn: "nat (int (length (denseEntities s) - 1)) = length (denseEntities s) - 1"
    by simp
  from ne have pos: "0 < length (denseEntities s)" by simp
  show ?thesis
    using p e d d' ne k len nar pos
    by (simp add: removeElement_with_def elem_def store_def vec_at_def vec_store_def
        last_conv_nth Let_def del: of_nat_diff)
qed

lemma consistent_removeElement_with:
  assumes c: "consistent s" and small: "length (dense s) \<le> 2 ^ 31"
  shows "\<exists>s'. removeElement_with isPresent e s = Some (isPresent s e, s') \<and> consistent s'"
proof (cases "isPresent s e")
  case True
  then have e: "unat e < length (sparse s)" "sparse s ! unat e \<noteq> -1"
    by (simp_all add: isPresent_def)
  from c have l: "linked (sparse s) (map unat (denseEntities s))"
    and len: "length (dense s) = length (denseEntities s)"
    by (simp_all add: consistent_def)
  from linked_fwd [OF l e] have "denseEntities s \<noteq> []" by auto
  then have lst: "last (map unat (denseEntities s)) = unat (last (denseEntities s))"
    by (simp add: last_map)
  from linked_trim [OF linked_remove [OF l e]] len True c small show ?thesis
    by (simp add: removeElement_with_present consistent_def lst map_butlast map_update)
next
  case False
  with c show ?thesis by (simp add: removeElement_with_def)
qed

subsection \<open>Evaluation on concrete sets\<close>

lemma list_update_Cons_numeral:
  "(x # xs)[numeral k := y] = x # xs[pred_numeral k := y]"
  by (simp add: numeral_eq_Suc)

lemma replicate_numeral: "replicate (numeral k) x = x # replicate (pred_numeral k) x"
  by (simp add: numeral_eq_Suc)

lemmas sparse_eval =
  addElement_def removeElement_with_def getElement_def isPresent_def empty_set_def
  resize_def plus_one_def narrow_def elem_def store_def vec_at_def vec_store_def
  list_update_Cons_numeral replicate_numeral trim.simps

lemma three_added:
  "add_all [(1 :: 32 word, a), (2, b), (3, c)] empty_set =
     Some \<lparr>sparse = [-1, 0, 1, 2], denseEntities = [1, 2, 3], dense = [a, b, c]\<rparr>"
  by (simp add: sparse_eval)

lemma one_added:
  "add_all [(1 :: 32 word, ''a'')] empty_set =
     Some \<lparr>sparse = [-1, 0], denseEntities = [1], dense = [''a'']\<rparr>"
  by (simp add: sparse_eval)

subsection \<open>Claims of the specification about the sparse set\<close>

text \<open>
  Claim C1, against the code. Entities 1, 2, 3 are added in that order with values
  \<open>a\<close>, \<open>b\<close>, \<open>c\<close>. The call \<open>removeElement(2)\<close> the claim describes is ill-formed:
  the guard of the function names \<open>_isPresent\<close>, which nothing declares. With the
  name read as \<open>isPresent\<close>, the test \<open>addElement\<close> uses, the body does what the claim
  says: it returns true and leaves \<open>dense = [a, c]\<close>, \<open>denseEntities = [1, 3]\<close> and the
  sparse entry of 3 at index 1; then 2 is absent, \<open>getElement(1)\<close> is \<open>a\<close> and
  \<open>getElement(3)\<close> is \<open>c\<close>.
\<close>

theorem swap_remove_ill_formed:
  "add_all [(1 :: 32 word, a), (2, b), (3, c)] empty_set =
     Some \<lparr>sparse = [-1, 0, 1, 2], denseEntities = [1, 2, 3], dense = [a, b, c]\<rparr> \<and>
   removeElement 2 \<lparr>sparse = [-1, 0, 1, 2], denseEntities = [1, 2, 3 :: 32 word],
                     dense = [a, b, c]\<rparr> = Inl (Undeclared ''_isPresent'') \<and>
   removeElement_with isPresent 2
     \<lparr>sparse = [-1, 0, 1, 2], denseEntities = [1, 2, 3 :: 32 word], dense = [a, b, c]\<rparr> =
     Some (True, \<lparr>sparse = [-1, 0, -1, 1], denseEntities = [1, 3], dense = [a, c]\<rparr>) \<and>
   \<not> isPresent \<lparr>sparse = [-1, 0, -1, 1], denseEntities = [1, 3 :: 32 word], dense = [a, c]\<rparr> 2 \<and>
   getElement 1 \<lparr>sparse = [-1, 0, -1, 1], denseEntities = [1, 3 :: 32 word], dense = [a, c]\<rparr>
     = Some a \<and>
   getElement 3 \<lparr>sparse = [-1, 0, -1, 1], denseEntities = [1, 3 :: 32 word], dense = [a, c]\<rparr>
     = Some c"
proof (intro conjI)
  show "add_all [(1 :: 32 word, a), (2, b), (3, c)] empty_set =
     Some \<lparr>sparse = [-1, 0, 1, 2], denseEntities = [1, 2, 3], dense = [a, b, c]\<rparr>"
    by (rule three_added)
  show "removeElement 2 \<lparr>sparse = [-1, 0, 1, 2], denseEntities = [1, 2, 3 :: 32 word],
                     dense = [a, b, c]\<rparr> = Inl (Undeclared ''_isPresent'')"
    by (simp add: removeElement_def declared_test_def)
  show "removeElement_with isPresent 2
     \<lparr>sparse = [-1, 0, 1, 2], denseEntities = [1, 2, 3 :: 32 word], dense = [a, b, c]\<rparr> =
     Some (True, \<lparr>sparse = [-1, 0, -1, 1], denseEntities = [1, 3], dense = [a, c]\<rparr>)"
    by (simp add: sparse_eval)
  show "\<not> isPresent \<lparr>sparse = [-1, 0, -1, 1], denseEntities = [1, 3 :: 32 word], dense = [a, c]\<rparr> 2"
    by (simp add: sparse_eval)
  show "getElement 1 \<lparr>sparse = [-1, 0, -1, 1], denseEntities = [1, 3 :: 32 word], dense = [a, c]\<rparr>
     = Some a"
    by (simp add: sparse_eval)
  show "getElement 3 \<lparr>sparse = [-1, 0, -1, 1], denseEntities = [1, 3 :: 32 word], dense = [a, c]\<rparr>
     = Some c"
    by (simp add: sparse_eval)
qed

text \<open>
  Claim C2 fails at the largest id of a 32-bit id type. The id is absent, yet
  \<open>entity + 1\<close> wraps to 0, \<open>resize(0, -1)\<close> empties the sparse array (the entry of the
  present id 1 goes with it), and the store \<open>_sparse[entity]\<close> that follows is outside
  the vector: the call has no defined result.
\<close>

theorem addElement_wraps_counterexample:
  "\<not> isPresent \<lparr>sparse = [-1, 0], denseEntities = [1 :: 32 word], dense = [''a'']\<rparr> (-1) \<and>
   plus_one (-1 :: 32 word) = 0 \<and>
   resize (plus_one (-1 :: 32 word)) (-1) [-1, 0 :: int] = [] \<and>
   addElement (-1) ''x'' \<lparr>sparse = [-1, 0], denseEntities = [1 :: 32 word], dense = [''a'']\<rparr>
     = None"
proof -
  have u: "unat (-1 :: 32 word) = 4294967295"
    by (simp add: unsigned_minus_1_eq_mask mask_eq_exp_minus_1)
  have p: "plus_one (-1 :: 32 word) = 0" by (simp add: plus_one_def)
  show ?thesis
    by (simp add: addElement_def isPresent_def u p resize_def store_def)
qed

text \<open>
  Claim C2, amended. For every id and value: when the id is present, \<open>addElement\<close>
  returns false and the set is unchanged. When the id is absent and \<open>entity + 1\<close>
  does not wrap in the id type, \<open>addElement\<close> returns true; the sparse array then
  covers the id, its new slots other than the id's hold \<open>-1\<close> and its old entries are
  kept; the value is appended to \<open>dense\<close> and the id to \<open>denseEntities\<close>; the id's
  sparse entry is the former size of \<open>dense\<close> converted to \<open>int\<close>. When that size is
  below \<open>2^31\<close> the entry is the index of the appended value, the id is then present,
  \<open>getElement\<close> returns the value, and a second \<open>addElement\<close> for the same id with any
  value \<open>w\<close> returns false and changes nothing, so the first value is retained.
\<close>

theorem addElement_contract_in_range:
  "(isPresent s entity \<longrightarrow> addElement entity v s = Some (False, s)) \<and>
   (\<not> isPresent s entity \<and> plus_one entity = unat entity + 1 \<longrightarrow>
      (\<exists>s'. addElement entity v s = Some (True, s') \<and>
         length (sparse s') = max (length (sparse s)) (unat entity + 1) \<and>
         (\<forall>j < length (sparse s').
            sparse s' ! j =
              (if j = unat entity then narrow (length (dense s))
               else if j < length (sparse s) then sparse s ! j else -1)) \<and>
         dense s' = dense s @ [v] \<and>
         denseEntities s' = denseEntities s @ [entity] \<and>
         (length (dense s) < 2 ^ 31 \<longrightarrow>
            sparse s' ! unat entity = int (length (dense s)) \<and>
            isPresent s' entity \<and>
            getElement entity s' = Some v \<and>
            addElement entity w s' = Some (False, s'))))"
proof (intro conjI impI)
  assume "isPresent s entity"
  then show "addElement entity v s = Some (False, s)" by (rule addElement_present)
next
  assume a: "\<not> isPresent s entity \<and> plus_one entity = unat entity + 1"
  define s' where "s' = s\<lparr>sparse := (grown (unat entity) (sparse s))
                                    [unat entity := narrow (length (dense s))],
              dense := dense s @ [v], denseEntities := denseEntities s @ [entity]\<rparr>"
  have sel: "sparse s' = (grown (unat entity) (sparse s))[unat entity := narrow (length (dense s))]"
    "dense s' = dense s @ [v]" "denseEntities s' = denseEntities s @ [entity]"
    by (simp_all add: s'_def)
  from a have res: "addElement entity v s = Some (True, s')"
    by (simp add: addElement_absent s'_def)
  have len: "length (sparse s') = max (length (sparse s)) (unat entity + 1)"
    by (simp add: sel length_grown)
  then have inside: "unat entity < length (sparse s')" by simp
  have entries: "sparse s' ! j =
      (if j = unat entity then narrow (length (dense s))
       else if j < length (sparse s) then sparse s ! j else -1)"
    if "j < length (sparse s')" for j
    using that by (simp add: sel nth_grown)
  have after: "sparse s' ! unat entity = int (length (dense s)) \<and>
            isPresent s' entity \<and>
            getElement entity s' = Some v \<and>
            addElement entity w s' = Some (False, s')"
    if small: "length (dense s) < 2 ^ 31"
  proof -
    from entries [OF inside] narrow_small [OF small]
    have idx: "sparse s' ! unat entity = int (length (dense s))" by simp
    with inside have present: "isPresent s' entity" by (simp add: isPresent_def)
    from inside idx have "getElement entity s' = Some v"
      by (simp add: getElement_def elem_def vec_at_def sel(2))
    with idx present addElement_present [OF present, of w] show ?thesis by simp
  qed
  show "\<exists>s'. addElement entity v s = Some (True, s') \<and>
         length (sparse s') = max (length (sparse s)) (unat entity + 1) \<and>
         (\<forall>j < length (sparse s').
            sparse s' ! j =
              (if j = unat entity then narrow (length (dense s))
               else if j < length (sparse s) then sparse s ! j else -1)) \<and>
         dense s' = dense s @ [v] \<and>
         denseEntities s' = denseEntities s @ [entity] \<and>
         (length (dense s) < 2 ^ 31 \<longrightarrow>
            sparse s' ! unat entity = int (length (dense s)) \<and>
            isPresent s' entity \<and>
            getElement entity s' = Some v \<and>
            addElement entity w s' = Some (False, s'))"
    using res len entries sel(2,3) after by blast
qed

theorem addElement_contract_in_range_witness:
  "\<not> isPresent (empty_set :: (string, 32) SparseSet) 5 \<and>
   plus_one (5 :: 32 word) = unat (5 :: 32 word) + 1 \<and>
   length (dense (empty_set :: (string, 32) SparseSet)) < 2 ^ 31 \<and>
   addElement 5 ''x'' empty_set =
     Some (True, \<lparr>sparse = [-1, -1, -1, -1, -1, 0], denseEntities = [5 :: 32 word],
                  dense = [''x'']\<rparr>) \<and>
   isPresent \<lparr>sparse = [-1, -1, -1, -1, -1, 0], denseEntities = [5 :: 32 word],
              dense = [''x'']\<rparr> 5 \<and>
   addElement 5 ''y'' \<lparr>sparse = [-1, -1, -1, -1, -1, 0], denseEntities = [5 :: 32 word],
                        dense = [''x'']\<rparr> =
     Some (False, \<lparr>sparse = [-1, -1, -1, -1, -1, 0], denseEntities = [5], dense = [''x'']\<rparr>) \<and>
   getElement 5 \<lparr>sparse = [-1, -1, -1, -1, -1, 0], denseEntities = [5 :: 32 word],
                  dense = [''x'']\<rparr> = Some ''x''"
proof -
  have absent: "\<not> isPresent (empty_set :: (string, 32) SparseSet) 5"
    by (simp add: isPresent_def empty_set_def)
  have fit: "plus_one (5 :: 32 word) = unat (5 :: 32 word) + 1"
    by (simp add: plus_one_def)
  have small: "length (dense (empty_set :: (string, 32) SparseSet)) < 2 ^ 31"
    by (simp add: empty_set_def)
  have first: "addElement 5 ''x'' empty_set =
     Some (True, \<lparr>sparse = [-1, -1, -1, -1, -1, 0], denseEntities = [5 :: 32 word],
                  dense = [''x'']\<rparr>)"
    by (simp add: sparse_eval)
  from addElement_contract_in_range
    [of "empty_set :: (string, 32) SparseSet" 5 "''x''" "''y''"] absent fit small first
  have "isPresent \<lparr>sparse = [-1, -1, -1, -1, -1, 0], denseEntities = [5 :: 32 word],
              dense = [''x'']\<rparr> 5 \<and>
    getElement 5 \<lparr>sparse = [-1, -1, -1, -1, -1, 0], denseEntities = [5 :: 32 word],
                  dense = [''x'']\<rparr> = Some ''x'' \<and>
    addElement 5 ''y'' \<lparr>sparse = [-1, -1, -1, -1, -1, 0], denseEntities = [5 :: 32 word],
                        dense = [''x'']\<rparr> =
     Some (False, \<lparr>sparse = [-1, -1, -1, -1, -1, 0], denseEntities = [5], dense = [''x'']\<rparr>)"
    by auto
  with absent fit small first show ?thesis by blast
qed

text \<open>
  Claim C3 fails for an operation on a reachable set: after \<open>addElement(1, a)\<close> the
  call \<open>addElement\<close> with the largest id of a 32-bit id type writes outside the
  sparse array, so no state, and no invariant, is left.
\<close>

theorem sparse_set_invariant_counterexample:
  "add_all [(1 :: 32 word, ''a'')] empty_set =
     Some \<lparr>sparse = [-1, 0], denseEntities = [1], dense = [''a'']\<rparr> \<and>
   add_all [(1 :: 32 word, ''a''), (-1, ''x'')] empty_set = None"
proof -
  have u: "unat (-1 :: 32 word) = 4294967295"
    by (simp add: unsigned_minus_1_eq_mask mask_eq_exp_minus_1)
  have p: "plus_one (-1 :: 32 word) = 0" by (simp add: plus_one_def)
  have "addElement (-1) ''x'' \<lparr>sparse = [-1, 0], denseEntities = [1 :: 32 word], dense = [''a'']\<rparr>
     = None"
    by (simp add: addElement_def isPresent_def u p resize_def store_def)
  moreover have "addElement (1 :: 32 word) ''a'' empty_set =
     Some (True, \<lparr>sparse = [-1, 0], denseEntities = [1], dense = [''a'']\<rparr>)"
    by (simp add: sparse_eval)
  ultimately show ?thesis by simp
qed

text \<open>
  Claim C3, amended. After any sequence of at most \<open>2^31\<close> calls of \<open>addElement\<close> on a
  fresh sparse set, with ids whose successor does not wrap in the id type, no call has
  left the vectors and the structure invariant holds: \<open>dense\<close> and \<open>denseEntities\<close>
  have the same length, no id occurs twice in \<open>denseEntities\<close>, and for every position
  \<open>e\<close> of the sparse array whose entry \<open>i\<close> is not \<open>-1\<close>, \<open>denseEntities[i]\<close> is the id
  \<open>e\<close> and \<open>dense[i]\<close> is the value the specification's map holds for it. Nothing
  is said of \<open>removeElement\<close>, which is ill-formed as written.
\<close>

theorem sparse_set_invariant_adds:
  assumes "length xs \<le> 2 ^ 31"
    and "\<forall>x \<in> set xs. plus_one (fst x) = unat (fst x) + 1"
  shows "\<exists>s. add_all xs empty_set = Some s \<and>
       length (dense s) = length (denseEntities s) \<and>
       distinct (denseEntities s) \<and>
       (\<forall>e < length (sparse s). sparse s ! e \<noteq> -1 \<longrightarrow>
          0 \<le> sparse s ! e \<and> nat (sparse s ! e) < length (denseEntities s) \<and>
          unat (denseEntities s ! nat (sparse s ! e)) = e \<and>
          spec_add_all xs Map.empty (denseEntities s ! nat (sparse s ! e)) =
            Some (dense s ! nat (sparse s ! e)))"
proof -
  from add_all_empty [OF assms] obtain s where
    s: "add_all xs empty_set = Some s" "consistent s" "lookup s = spec_add_all xs Map.empty"
    by blast
  from s(2) have l: "linked (sparse s) (map unat (denseEntities s))"
    and len: "length (dense s) = length (denseEntities s)"
    by (simp_all add: consistent_def)
  have "0 \<le> sparse s ! e \<and> nat (sparse s ! e) < length (denseEntities s) \<and>
          unat (denseEntities s ! nat (sparse s ! e)) = e \<and>
          spec_add_all xs Map.empty (denseEntities s ! nat (sparse s ! e)) =
            Some (dense s ! nat (sparse s ! e))"
    if e: "e < length (sparse s)" "sparse s ! e \<noteq> -1" for e
  proof -
    from linked_fwd [OF l e] have f: "0 \<le> sparse s ! e"
      "nat (sparse s ! e) < length (denseEntities s)"
      "map unat (denseEntities s) ! nat (sparse s ! e) = e"
      by simp_all
    from f(2,3) have u: "unat (denseEntities s ! nat (sparse s ! e)) = e" by simp
    from lookup_consistent [OF s(2), of "denseEntities s ! nat (sparse s ! e)"] u e s(3)
    have "spec_add_all xs Map.empty (denseEntities s ! nat (sparse s ! e)) =
            Some (dense s ! nat (sparse s ! e))"
      by simp
    with f u show ?thesis by simp
  qed
  with s(1) len consistent_distinct [OF s(2)] show ?thesis by blast
qed

theorem sparse_set_invariant_adds_witness:
  "length [(1 :: 32 word, ''a''), (2, ''b''), (3, ''c'')] \<le> 2 ^ 31 \<and>
   plus_one (1 :: 32 word) = unat (1 :: 32 word) + 1 \<and>
   plus_one (2 :: 32 word) = unat (2 :: 32 word) + 1 \<and>
   plus_one (3 :: 32 word) = unat (3 :: 32 word) + 1 \<and>
   add_all [(1 :: 32 word, ''a''), (2, ''b''), (3, ''c'')] empty_set =
     Some \<lparr>sparse = [-1, 0, 1, 2], denseEntities = [1, 2, 3], dense = [''a'', ''b'', ''c'']\<rparr> \<and>
   (3 :: nat) < length [-1, 0, 1, 2 :: int] \<and> [-1, 0, 1, 2 :: int] ! 3 \<noteq> -1 \<and>
   spec_add_all [(1 :: 32 word, ''a''), (2, ''b''), (3, ''c'')] Map.empty 3 = Some ''c''"
proof -
  have h1: "length [(1 :: 32 word, ''a''), (2, ''b''), (3, ''c'')] \<le> 2 ^ 31" by simp
  have fit: "plus_one (1 :: 32 word) = unat (1 :: 32 word) + 1"
    "plus_one (2 :: 32 word) = unat (2 :: 32 word) + 1"
    "plus_one (3 :: 32 word) = unat (3 :: 32 word) + 1"
    by (simp_all add: plus_one_def)
  then have h2: "\<forall>x \<in> set [(1 :: 32 word, ''a''), (2, ''b''), (3, ''c'')].
      plus_one (fst x) = unat (fst x) + 1"
    by simp
  from sparse_set_invariant_adds [OF h1 h2]
  have "\<forall>e < length [-1, 0, 1, 2 :: int]. [-1, 0, 1, 2 :: int] ! e \<noteq> -1 \<longrightarrow>
          spec_add_all [(1 :: 32 word, ''a''), (2, ''b''), (3, ''c'')] Map.empty
            ([1, 2, 3 :: 32 word] ! nat ([-1, 0, 1, 2 :: int] ! e)) =
          Some ([''a'', ''b'', ''c''] ! nat ([-1, 0, 1, 2 :: int] ! e))"
    unfolding three_added by simp
  then have "(3 :: nat) < length [-1, 0, 1, 2 :: int] \<longrightarrow> [-1, 0, 1, 2 :: int] ! 3 \<noteq> -1 \<longrightarrow>
          spec_add_all [(1 :: 32 word, ''a''), (2, ''b''), (3, ''c'')] Map.empty
            ([1, 2, 3 :: 32 word] ! nat ([-1, 0, 1, 2 :: int] ! 3)) =
          Some ([''a'', ''b'', ''c''] ! nat ([-1, 0, 1, 2 :: int] ! 3))"
    by blast
  then have "spec_add_all [(1 :: 32 word, ''a''), (2, ''b''), (3, ''c'')] Map.empty 3 = Some ''c''"
    by (simp add: eval_nat_numeral)
  with h1 fit three_added [of "''a''" "''b''" "''c''"] show ?thesis by simp
qed

text \<open>
  Claim C6 fails for the one-operation sequence that adds the largest id of a 32-bit
  id type: the key is to be present afterwards, but the call writes outside the
  sparse array and has no defined result.
\<close>

theorem sparse_set_round_trip_counterexample:
  "fst ` set [(-1 :: 32 word, ''x'')] = {-1} \<and>
   add_all [(-1 :: 32 word, ''x'')] empty_set = None"
proof -
  have u: "unat (-1 :: 32 word) = 4294967295"
    by (simp add: unsigned_minus_1_eq_mask mask_eq_exp_minus_1)
  have p: "plus_one (-1 :: 32 word) = 0" by (simp add: plus_one_def)
  have "addElement (-1 :: 32 word) ''x'' empty_set = None"
    by (simp add: addElement_def isPresent_def empty_set_def u p resize_def store_def)
  then show ?thesis by simp
qed

text \<open>
  Claim C6, amended. After any sequence of at most \<open>2^31\<close> calls of \<open>addElement\<close> on a
  fresh sparse set, with ids whose successor does not wrap in the id type (so after
  each call of a longer such sequence, whether or not a key is added twice),
  \<open>isPresent(k)\<close> is true exactly for the keys \<open>k\<close> added so far, and \<open>size()\<close> is the
  number of those keys. Nothing is said of \<open>removeElement\<close>, which is ill-formed as
  written.
\<close>

theorem sparse_set_round_trip_adds:
  assumes "length xs \<le> 2 ^ 31"
    and "\<forall>x \<in> set xs. plus_one (fst x) = unat (fst x) + 1"
  shows "\<exists>s. add_all xs empty_set = Some s \<and>
       (\<forall>k. isPresent s k \<longleftrightarrow> k \<in> fst ` set xs) \<and>
       size_of s = card (fst ` set xs)"
proof -
  from add_all_empty [OF assms] obtain s where
    s: "add_all xs empty_set = Some s" "consistent s" "lookup s = spec_add_all xs Map.empty"
    by blast
  from s(3) have d: "dom (lookup s) = fst ` set xs"
    by (simp add: dom_spec_add_all)
  from dom_lookup [OF s(2)] consistent_distinct [OF s(2)] d
  have "size_of s = card (fst ` set xs)"
    by (simp add: size_of_def distinct_card)
  with s(1) isPresent_lookup [OF s(2)] d show ?thesis by simp
qed

theorem sparse_set_round_trip_adds_witness:
  "length [(1 :: 32 word, ''a''), (3, ''c''), (1, ''z'')] \<le> 2 ^ 31 \<and>
   plus_one (1 :: 32 word) = unat (1 :: 32 word) + 1 \<and>
   plus_one (3 :: 32 word) = unat (3 :: 32 word) + 1 \<and>
   add_all [(1 :: 32 word, ''a''), (3, ''c''), (1, ''z'')] empty_set =
     Some \<lparr>sparse = [-1, 0, -1, 1], denseEntities = [1, 3], dense = [''a'', ''c'']\<rparr> \<and>
   isPresent \<lparr>sparse = [-1, 0, -1, 1], denseEntities = [1, 3 :: 32 word], dense = [''a'', ''c'']\<rparr> 3 \<and>
   \<not> isPresent \<lparr>sparse = [-1, 0, -1, 1], denseEntities = [1, 3 :: 32 word], dense = [''a'', ''c'']\<rparr> 2 \<and>
   size_of \<lparr>sparse = [-1, 0, -1, 1], denseEntities = [1, 3 :: 32 word], dense = [''a'', ''c'']\<rparr>
     = card {1 :: 32 word, 3}"
proof -
  have h1: "length [(1 :: 32 word, ''a''), (3, ''c''), (1, ''z'')] \<le> 2 ^ 31" by simp
  have fit: "plus_one (1 :: 32 word) = unat (1 :: 32 word) + 1"
    "plus_one (3 :: 32 word) = unat (3 :: 32 word) + 1"
    by (simp_all add: plus_one_def)
  then have h2: "\<forall>x \<in> set [(1 :: 32 word, ''a''), (3, ''c''), (1, ''z'')].
      plus_one (fst x) = unat (fst x) + 1"
    by simp
  have run: "add_all [(1 :: 32 word, ''a''), (3, ''c''), (1, ''z'')] empty_set =
     Some \<lparr>sparse = [-1, 0, -1, 1], denseEntities = [1, 3], dense = [''a'', ''c'']\<rparr>"
    by (simp add: sparse_eval)
  have keys: "fst ` set [(1 :: 32 word, ''a''), (3, ''c''), (1, ''z'')] = {1, 3}"
    by auto
  from sparse_set_round_trip_adds [OF h1 h2]
  have "(\<forall>k. isPresent \<lparr>sparse = [-1, 0, -1, 1], denseEntities = [1, 3 :: 32 word],
                dense = [''a'', ''c'']\<rparr> k \<longleftrightarrow> k \<in> {1, 3}) \<and>
        size_of \<lparr>sparse = [-1, 0, -1, 1], denseEntities = [1, 3 :: 32 word],
                dense = [''a'', ''c'']\<rparr> = card {1 :: 32 word, 3}"
    unfolding run keys by simp
  with h1 fit run show ?thesis by simp
qed

text \<open>
  Claim C7, against the code. \<open>removeElement(2)\<close> on a set that holds 1 and 3 does not
  return false: the call is ill-formed, as the guard that should answer it names the
  undeclared \<open>_isPresent\<close>. With the name read as \<open>isPresent\<close> the body returns false
  and leaves the three arrays as they were.
\<close>

theorem removeElement_absent_ill_formed:
  "\<not> isPresent \<lparr>sparse = [-1, 0, -1, 1], denseEntities = [1, 3 :: 32 word],
                 dense = [''a'', ''c'']\<rparr> 2 \<and>
   removeElement 2 \<lparr>sparse = [-1, 0, -1, 1], denseEntities = [1, 3 :: 32 word],
                     dense = [''a'', ''c'']\<rparr> = Inl (Undeclared ''_isPresent'') \<and>
   removeElement_with isPresent 2
     \<lparr>sparse = [-1, 0, -1, 1], denseEntities = [1, 3 :: 32 word], dense = [''a'', ''c'']\<rparr> =
     Some (False, \<lparr>sparse = [-1, 0, -1, 1], denseEntities = [1, 3], dense = [''a'', ''c'']\<rparr>)"
  by (simp add: removeElement_def declared_test_def removeElement_with_def isPresent_def)

section \<open>Properties of the scheduler\<close>

subsection \<open>The ordered active set\<close>

lemma LessPriority_trans:
  "LessPriority x y \<Longrightarrow> LessPriority y z \<Longrightarrow> LessPriority x z"
  by (auto simp: LessPriority_def)

lemma set_set_insert: "set (set_insert x xs) \<subseteq> insert x (set xs)"
  by (induction xs) auto

lemma sorted_set_insert:
  "sorted_wrt LessPriority xs \<Longrightarrow> sorted_wrt LessPriority (set_insert x xs)"
proof (induction xs)
  case Nil
  then show ?case by simp
next
  case (Cons y ys)
  show ?case
  proof (cases "LessPriority x y")
    case True
    with Cons.prems show ?thesis by (auto intro: LessPriority_trans)
  next
    case False
    show ?thesis
    proof (cases "LessPriority y x")
      case True
      with False Cons set_set_insert [of x ys] show ?thesis by auto
    next
      case F: False
      with False Cons.prems show ?thesis by simp
    qed
  qed
qed

lemma length_set_insert_fresh:
  "\<forall>y \<in> set xs. fst y \<noteq> fst x \<Longrightarrow> length (set_insert x xs) = Suc (length xs)"
  by (induction xs) (auto simp: LessPriority_def)

lemma set_erase_system: "set (erase_system h xs) \<subseteq> set xs"
  by (induction xs) auto

lemma sorted_erase_system:
  "sorted_wrt P xs \<Longrightarrow> sorted_wrt P (erase_system h xs)"
proof (induction xs)
  case Nil
  then show ?case by simp
next
  case (Cons y ys)
  with set_erase_system [of h ys] show ?case by auto
qed

lemma ordered_start_systems:
  "ordered m \<Longrightarrow> ordered (start_systems queue m)"
proof (induction queue arbitrary: m)
  case Nil
  then show ?case by simp
next
  case (Cons s queue)
  let ?m = "m\<lparr>hooks := hooks m @ [OnStart (address s)],
          systems := set_insert (next_sequence m, s) (systems m),
          next_sequence := next_sequence m + 1\<rparr>"
  from Cons.prems set_set_insert [of "(next_sequence m, s)" "systems m"]
  have "ordered ?m"
    by (auto simp: ordered_def sorted_set_insert less_Suc_eq)
  from Cons.IH [OF this] show ?case by simp
qed

lemma length_start_systems:
  "ordered m \<Longrightarrow>
   length (systems (start_systems queue m)) = length (systems m) + length queue"
proof (induction queue arbitrary: m)
  case Nil
  then show ?case by simp
next
  case (Cons s queue)
  let ?m = "m\<lparr>hooks := hooks m @ [OnStart (address s)],
          systems := set_insert (next_sequence m, s) (systems m),
          next_sequence := next_sequence m + 1\<rparr>"
  from Cons.prems have fresh: "\<forall>y \<in> set (systems m). fst y \<noteq> fst (next_sequence m, s)"
    by (auto simp: ordered_def)
  from Cons.prems set_set_insert [of "(next_sequence m, s)" "systems m"]
  have "ordered ?m"
    by (auto simp: ordered_def sorted_set_insert less_Suc_eq)
  from Cons.IH [OF this] length_set_insert_fresh [OF fresh] show ?case by simp
qed

lemma ordered_stop_systems:
  "ordered m \<Longrightarrow> ordered (stop_systems queue m)"
proof (induction queue arbitrary: m)
  case Nil
  then show ?case by simp
next
  case (Cons h queue)
  let ?m = "if h \<in> set (active_handles m)
        then m\<lparr>hooks := hooks m @ [OnStop h], systems := erase_system h (systems m)\<rparr>
        else m"
  from Cons.prems set_erase_system [of h "systems m"] have "ordered ?m"
    by (auto simp: ordered_def sorted_erase_system)
  from Cons.IH [OF this] show ?case by simp
qed

lemma serve_keeps:
  "systems (serve r m) = systems m" "hooks (serve r m) = hooks m"
  "next_sequence (serve r m) = next_sequence m"
  by (cases r; simp add: addSystem_def removeSystem_def)+

lemma fold_serve_keeps:
  "systems (fold serve rs m) = systems m \<and> hooks (fold serve rs m) = hooks m \<and>
   next_sequence (fold serve rs m) = next_sequence m"
  by (induction rs arbitrary: m) (simp_all add: serve_keeps)

lemma serve_queues:
  "(\<exists>q. removedSystems (serve r m) = removedSystems m @ q) \<and>
   (\<exists>q. addedSystems (serve r m) = addedSystems m @ q)"
  by (cases r) (simp_all add: addSystem_def removeSystem_def)

lemma fold_serve_queues:
  "(\<exists>q. removedSystems (fold serve rs m) = removedSystems m @ q) \<and>
   (\<exists>q. addedSystems (fold serve rs m) = addedSystems m @ q)"
proof (induction rs arbitrary: m)
  case Nil
  then show ?case by simp
next
  case (Cons r rs)
  from serve_queues [of r m] obtain q1 q2 where
    "removedSystems (serve r m) = removedSystems m @ q1"
    "addedSystems (serve r m) = addedSystems m @ q2" by blast
  moreover from Cons [of "serve r m"] obtain q3 q4 where
    "removedSystems (fold serve rs (serve r m)) = removedSystems (serve r m) @ q3"
    "addedSystems (fold serve rs (serve r m)) = addedSystems (serve r m) @ q4" by blast
  ultimately show ?case by simp
qed

lemma update_systems_keeps:
  "systems (update_systems dt xs m) = systems m \<and>
   next_sequence (update_systems dt xs m) = next_sequence m \<and>
   hooks (update_systems dt xs m) = hooks m @ map (\<lambda>e. OnUpdate (address (snd e)) dt) xs"
proof (induction xs arbitrary: m)
  case Nil
  then show ?case by simp
next
  case (Cons x xs)
  show ?case
    by (simp add: Cons fold_serve_keeps)
qed

lemma update_systems_queues:
  "(\<exists>q. removedSystems (update_systems dt xs m) = removedSystems m @ q) \<and>
   (\<exists>q. addedSystems (update_systems dt xs m) = addedSystems m @ q)"
proof (induction xs arbitrary: m)
  case Nil
  then show ?case by simp
next
  case (Cons x xs)
  let ?m = "fold serve (onUpdate (snd x)) (m\<lparr>hooks := hooks m @ [OnUpdate (address (snd x)) dt]\<rparr>)"
  from fold_serve_queues [of "onUpdate (snd x)" "m\<lparr>hooks := hooks m @ [OnUpdate (address (snd x)) dt]\<rparr>"]
  obtain q1 q2 where "removedSystems ?m = removedSystems m @ q1"
    "addedSystems ?m = addedSystems m @ q2" by auto
  moreover from Cons [of ?m] obtain q3 q4 where
    "removedSystems (update_systems dt xs ?m) = removedSystems ?m @ q3"
    "addedSystems (update_systems dt xs ?m) = addedSystems ?m @ q4" by blast
  ultimately show ?case by simp
qed

lemma ordered_exec:
  assumes "ordered m"
  shows "ordered (exec c m)"
proof (cases c)
  case (CallAddSystem system)
  with assms show ?thesis by (simp add: ordered_def addSystem_def)
next
  case (CallRemoveSystem h)
  with assms show ?thesis by (simp add: ordered_def removeSystem_def)
next
  case CallProcessAdded
  from assms have "ordered (m\<lparr>addedSystems := []\<rparr>)" by (simp add: ordered_def)
  with CallProcessAdded show ?thesis
    by (simp add: processAddedSystems_def ordered_start_systems)
next
  case CallProcessRemoved
  from assms have "ordered (m\<lparr>removedSystems := []\<rparr>)" by (simp add: ordered_def)
  with CallProcessRemoved show ?thesis
    by (simp add: processRemovedSystems_def ordered_stop_systems)
next
  case (CallUpdate dt)
  with assms update_systems_keeps [of dt "systems m" m] show ?thesis
    by (simp add: ordered_def update_def)
next
  case CallStop
  with assms show ?thesis by (simp add: ordered_def stop_def)
next
  case CallClear
  with assms show ?thesis by (simp add: ordered_def clear_def)
qed

lemma ordered_fold_exec: "ordered m \<Longrightarrow> ordered (fold exec cs m)"
  by (induction cs arbitrary: m) (simp_all add: ordered_exec)

lemma ordered_exec_all: "ordered (exec_all cs)"
  unfolding exec_all_def
  by (rule ordered_fold_exec) (simp add: ordered_def new_manager_def)

subsection \<open>Requests served during an update\<close>

lemma active_handles_serve: "active_handles (fold serve rs m) = active_handles m"
  by (simp add: active_handles_def fold_serve_keeps)

lemma fold_serve_remove:
  "RemoveSystem h \<in> set rs \<Longrightarrow> h \<in> set (active_handles m) \<Longrightarrow>
   h \<in> set (removedSystems (fold serve rs m))"
proof (induction rs arbitrary: m)
  case Nil
  then show ?case by simp
next
  case (Cons r rs)
  have act: "h \<in> set (active_handles (serve r m))"
    using Cons.prems(2) by (simp add: active_handles_def serve_keeps)
  show ?case
  proof (cases "r = RemoveSystem h")
    case True
    with Cons.prems(2) have "h \<in> set (removedSystems (serve r m))"
      by (simp add: removeSystem_def)
    moreover from fold_serve_queues [of rs "serve r m"] obtain q where
      "removedSystems (fold serve rs (serve r m)) = removedSystems (serve r m) @ q" by blast
    ultimately show ?thesis by simp
  next
    case False
    with Cons.prems(1) have "RemoveSystem h \<in> set rs" by simp
    from Cons.IH [OF this act] show ?thesis by simp
  qed
qed

lemma update_systems_remove:
  "x \<in> set xs \<Longrightarrow> RemoveSystem h \<in> set (onUpdate (snd x)) \<Longrightarrow>
   h \<in> set (active_handles m) \<Longrightarrow>
   h \<in> set (removedSystems (update_systems dt xs m))"
proof (induction xs arbitrary: m)
  case Nil
  then show ?case by simp
next
  case (Cons y ys)
  let ?mlog = "m\<lparr>hooks := hooks m @ [OnUpdate (address (snd y)) dt]\<rparr>"
  let ?m = "fold serve (onUpdate (snd y)) ?mlog"
  from Cons.prems(3) have act0: "h \<in> set (active_handles ?mlog)"
    by (simp add: active_handles_def)
  have "active_handles ?m = active_handles ?mlog"
    by (rule active_handles_serve)
  with act0 have act: "h \<in> set (active_handles ?m)" by simp
  show ?case
  proof (cases "x = y")
    case True
    with Cons.prems(2) act0 have "h \<in> set (removedSystems ?m)"
      by (intro fold_serve_remove) simp_all
    moreover from update_systems_queues [of dt ys ?m] obtain q where
      "removedSystems (update_systems dt ys ?m) = removedSystems ?m @ q" by blast
    ultimately show ?thesis by simp
  next
    case False
    with Cons.prems(1) have "x \<in> set ys" by simp
    from Cons.IH [OF this Cons.prems(2) act] show ?thesis by simp
  qed
qed

lemma erase_system_other:
  "h \<noteq> h' \<Longrightarrow> h \<in> set (map (\<lambda>e. address (snd e)) xs) \<Longrightarrow>
   h \<in> set (map (\<lambda>e. address (snd e)) (erase_system h' xs))"
  by (induction xs) auto

lemma stop_systems_hooks:
  "\<exists>ys. hooks (stop_systems q m) = hooks m @ ys \<and>
        (h \<in> set q \<and> h \<in> set (active_handles m) \<longrightarrow> OnStop h \<in> set ys)"
proof (induction q arbitrary: m)
  case Nil
  then show ?case by simp
next
  case (Cons h' q)
  let ?m = "if h' \<in> set (active_handles m)
        then m\<lparr>hooks := hooks m @ [OnStop h'], systems := erase_system h' (systems m)\<rparr>
        else m"
  from Cons [of ?m] obtain ys where
    ys: "hooks (stop_systems q ?m) = hooks ?m @ ys"
      "h \<in> set q \<and> h \<in> set (active_handles ?m) \<longrightarrow> OnStop h \<in> set ys"
    by blast
  show ?case
  proof (cases "h' \<in> set (active_handles m)")
    case True
    have "OnStop h \<in> set (OnStop h' # ys)"
      if "h \<in> set (h' # q)" "h \<in> set (active_handles m)"
    proof (cases "h = h'")
      case True
      then show ?thesis by simp
    next
      case False
      with that(2) have "h \<in> set (active_handles ?m)"
        using erase_system_other [of h h' "systems m"] by (simp add: active_handles_def)
      with False that(1) ys(2) show ?thesis by simp
    qed
    with True ys(1) show ?thesis by simp
  next
    case False
    have "OnStop h \<in> set ys" if "h \<in> set (h' # q)" "h \<in> set (active_handles m)"
      using that False ys(2) by auto
    with False ys(1) show ?thesis by simp
  qed
qed

lemma count_list_distinct:
  "distinct xs \<Longrightarrow> count_list xs x = (if x \<in> set xs then 1 else 0)"
  by (induction xs) auto

lemma count_list_OnStop:
  "count_list (map (\<lambda>e. OnStop (address (snd e)) :: 't hook) xs) (OnStop h) =
   count_list (map (\<lambda>e. address (snd e)) xs) h"
  by (induction xs) auto

lemmas scheduler_defs =
  exec_all_def new_manager_def addSystem_def removeSystem_def processAddedSystems_def
  processRemovedSystems_def update_def stop_def clear_def LessPriority_def active_handles_def

lemma three_systems_started:
  "exec_all [CallAddSystem (ISystem 1 10 []), CallAddSystem (ISystem 2 5 []),
             CallAddSystem (ISystem 3 5 []), CallProcessAdded] =
     \<lparr>systems = [(1, ISystem 2 5 []), (2, ISystem 3 5 []), (0, ISystem 1 10 [])],
      removedSystems = [], addedSystems = [], next_sequence = 3,
      hooks = [OnStart 1, OnStart 2, OnStart 3]\<rparr>"
  by (simp add: scheduler_defs)

lemma remover_started:
  "exec_all [CallAddSystem (ISystem 1 1 [RemoveSystem 2]), CallAddSystem (ISystem 2 2 []),
             CallProcessAdded] =
     \<lparr>systems = [(0, ISystem 1 1 [RemoveSystem 2]), (1, ISystem 2 2 [])],
      removedSystems = [], addedSystems = [], next_sequence = 2,
      hooks = [OnStart 1, OnStart 2]\<rparr>"
  by (simp add: scheduler_defs)

subsection \<open>Claims of the specification about the scheduler\<close>

text \<open>
  Claim C4. Whatever calls the scheduler has served, its active set is in ascending
  order of priority with ties in ascending insertion sequence, \<open>update\<close> invokes
  \<open>onUpdate\<close> on the active systems in exactly that order, and
  \<open>processAddedSystems\<close> makes every queued system active (none is dropped as a
  duplicate). For the systems A (priority 10), B (5) and C (5), registered in this
  order under the addresses 1, 2 and 3, \<open>update\<close> after \<open>processAddedSystems\<close> calls B,
  C, A and all three stay active; after B is removed and registered again the order is
  C, B, A: B is now the later registration of the two.
\<close>

theorem update_priority_order:
  "sorted_wrt LessPriority (systems (exec_all cs)) \<and>
   hooks (update dt (exec_all cs)) =
     hooks (exec_all cs) @ map (\<lambda>e. OnUpdate (address (snd e)) dt) (systems (exec_all cs)) \<and>
   length (systems (processAddedSystems (exec_all cs))) =
     length (systems (exec_all cs)) + length (addedSystems (exec_all cs)) \<and>
   exec_all [CallAddSystem (ISystem 1 10 []), CallAddSystem (ISystem 2 5 []),
             CallAddSystem (ISystem 3 5 []), CallProcessAdded, CallUpdate dt] =
     \<lparr>systems = [(1, ISystem 2 5 []), (2, ISystem 3 5 []), (0, ISystem 1 10 [])],
      removedSystems = [], addedSystems = [], next_sequence = 3,
      hooks = [OnStart 1, OnStart 2, OnStart 3,
               OnUpdate 2 dt, OnUpdate 3 dt, OnUpdate 1 dt]\<rparr> \<and>
   exec_all [CallAddSystem (ISystem 1 10 []), CallAddSystem (ISystem 2 5 []),
             CallAddSystem (ISystem 3 5 []), CallProcessAdded, CallUpdate dt,
             CallRemoveSystem 2, CallProcessRemoved,
             CallAddSystem (ISystem 2 5 []), CallProcessAdded, CallUpdate dt] =
     \<lparr>systems = [(2, ISystem 3 5 []), (3, ISystem 2 5 []), (0, ISystem 1 10 [])],
      removedSystems = [], addedSystems = [], next_sequence = 4,
      hooks = [OnStart 1, OnStart 2, OnStart 3,
               OnUpdate 2 dt, OnUpdate 3 dt, OnUpdate 1 dt,
               OnStop 2, OnStart 2,
               OnUpdate 3 dt, OnUpdate 2 dt, OnUpdate 1 dt]\<rparr>"
proof (intro conjI)
  have ord: "ordered (exec_all cs)" by (rule ordered_exec_all)
  then show "sorted_wrt LessPriority (systems (exec_all cs))" by (simp add: ordered_def)
  show "hooks (update dt (exec_all cs)) =
     hooks (exec_all cs) @ map (\<lambda>e. OnUpdate (address (snd e)) dt) (systems (exec_all cs))"
    by (simp add: update_def update_systems_keeps)
  from ord have "ordered ((exec_all cs)\<lparr>addedSystems := []\<rparr>)" by (simp add: ordered_def)
  from length_start_systems [OF this, of "addedSystems (exec_all cs)"]
  show "length (systems (processAddedSystems (exec_all cs))) =
     length (systems (exec_all cs)) + length (addedSystems (exec_all cs))"
    by (simp add: processAddedSystems_def)
  show "exec_all [CallAddSystem (ISystem 1 10 []), CallAddSystem (ISystem 2 5 []),
             CallAddSystem (ISystem 3 5 []), CallProcessAdded, CallUpdate dt] =
     \<lparr>systems = [(1, ISystem 2 5 []), (2, ISystem 3 5 []), (0, ISystem 1 10 [])],
      removedSystems = [], addedSystems = [], next_sequence = 3,
      hooks = [OnStart 1, OnStart 2, OnStart 3,
               OnUpdate 2 dt, OnUpdate 3 dt, OnUpdate 1 dt]\<rparr>"
    by (simp add: scheduler_defs)
  show "exec_all [CallAddSystem (ISystem 1 10 []), CallAddSystem (ISystem 2 5 []),
             CallAddSystem (ISystem 3 5 []), CallProcessAdded, CallUpdate dt,
             CallRemoveSystem 2, CallProcessRemoved,
             CallAddSystem (ISystem 2 5 []), CallProcessAdded, CallUpdate dt] =
     \<lparr>systems = [(2, ISystem 3 5 []), (3, ISystem 2 5 []), (0, ISystem 1 10 [])],
      removedSystems = [], addedSystems = [], next_sequence = 4,
      hooks = [OnStart 1, OnStart 2, OnStart 3,
               OnUpdate 2 dt, OnUpdate 3 dt, OnUpdate 1 dt,
               OnStop 2, OnStart 2,
               OnUpdate 3 dt, OnUpdate 2 dt, OnUpdate 1 dt]\<rparr>"
    by (simp add: scheduler_defs)
qed

theorem update_priority_order_witness:
  "LessPriority (1, ISystem 2 5 []) (2, ISystem 3 5 []) \<and>
   LessPriority (2, ISystem 3 5 []) (0, ISystem 1 10 []) \<and>
   hooks (update Zero
     \<lparr>systems = [(1, ISystem 2 5 []), (2, ISystem 3 5 []), (0, ISystem 1 10 [])],
      removedSystems = [], addedSystems = [], next_sequence = 3,
      hooks = [OnStart 1, OnStart 2, OnStart 3]\<rparr>) =
     [OnStart 1, OnStart 2, OnStart 3, OnUpdate 2 Zero, OnUpdate 3 Zero, OnUpdate 1 Zero]"
  using update_priority_order
    [of "[CallAddSystem (ISystem 1 10 []), CallAddSystem (ISystem 2 5 []),
          CallAddSystem (ISystem 3 5 []), CallProcessAdded]" Zero]
  unfolding three_systems_started by simp

text \<open>
  Claim C5. \<open>update\<close> leaves the active set as it was and invokes nothing but one
  \<open>onUpdate\<close> per active system, so no \<open>onStop\<close> and no \<open>onStart\<close>; what the systems
  request while they are updated is appended to the two pending queues. When an active
  system asks, during its \<open>onUpdate\<close>, for the removal of an active system, that
  system is on the remove-queue and still active when \<open>update\<close> returns, and the next
  \<open>processRemovedSystems\<close> invokes its \<open>onStop\<close>.
\<close>

theorem update_defers_mutation:
  "systems (update dt m) = systems m \<and>
   hooks (update dt m) = hooks m @ map (\<lambda>e. OnUpdate (address (snd e)) dt) (systems m) \<and>
   (\<exists>q. removedSystems (update dt m) = removedSystems m @ q) \<and>
   (\<exists>q. addedSystems (update dt m) = addedSystems m @ q) \<and>
   (\<forall>x h. x \<in> set (systems m) \<and> RemoveSystem h \<in> set (onUpdate (snd x)) \<and>
          h \<in> set (active_handles m) \<longrightarrow>
      h \<in> set (removedSystems (update dt m)) \<and>
      h \<in> set (active_handles (update dt m)) \<and>
      OnStop h \<in> set (drop (length (hooks (update dt m)))
                        (hooks (processRemovedSystems (update dt m)))))"
proof (intro conjI allI impI)
  show sys: "systems (update dt m) = systems m"
    by (simp add: update_def update_systems_keeps)
  show "hooks (update dt m) = hooks m @ map (\<lambda>e. OnUpdate (address (snd e)) dt) (systems m)"
    by (simp add: update_def update_systems_keeps)
  show "\<exists>q. removedSystems (update dt m) = removedSystems m @ q"
    using update_systems_queues [of dt "systems m" m] by (simp add: update_def)
  show "\<exists>q. addedSystems (update dt m) = addedSystems m @ q"
    using update_systems_queues [of dt "systems m" m] by (simp add: update_def)
  fix x h
  assume a: "x \<in> set (systems m) \<and> RemoveSystem h \<in> set (onUpdate (snd x)) \<and>
          h \<in> set (active_handles m)"
  then show queued: "h \<in> set (removedSystems (update dt m))"
    unfolding update_def by (intro update_systems_remove [of x]) simp_all
  from a sys show active: "h \<in> set (active_handles (update dt m))"
    by (simp add: active_handles_def)
  let ?u = "(update dt m)\<lparr>removedSystems := []\<rparr>"
  from active have "h \<in> set (active_handles ?u)" by (simp add: active_handles_def)
  with queued stop_systems_hooks [of "removedSystems (update dt m)" ?u h]
  show "OnStop h \<in> set (drop (length (hooks (update dt m)))
                        (hooks (processRemovedSystems (update dt m))))"
    by (auto simp: processRemovedSystems_def)
qed

theorem update_defers_mutation_witness:
  "(0, ISystem 1 1 [RemoveSystem 2]) \<in>
     set (systems \<lparr>systems = [(0, ISystem 1 1 [RemoveSystem 2]), (1, ISystem 2 2 [])],
      removedSystems = [], addedSystems = [], next_sequence = 2,
      hooks = [OnStart 1, OnStart 2 :: deltaTime hook]\<rparr>) \<and>
   RemoveSystem 2 \<in> set (onUpdate (ISystem 1 1 [RemoveSystem 2])) \<and>
   2 \<in> set (active_handles \<lparr>systems = [(0, ISystem 1 1 [RemoveSystem 2]), (1, ISystem 2 2 [])],
      removedSystems = [], addedSystems = [], next_sequence = 2,
      hooks = [OnStart 1, OnStart 2 :: deltaTime hook]\<rparr>) \<and>
   update Zero \<lparr>systems = [(0, ISystem 1 1 [RemoveSystem 2]), (1, ISystem 2 2 [])],
      removedSystems = [], addedSystems = [], next_sequence = 2,
      hooks = [OnStart 1, OnStart 2]\<rparr> =
     \<lparr>systems = [(0, ISystem 1 1 [RemoveSystem 2]), (1, ISystem 2 2 [])],
      removedSystems = [2], addedSystems = [], next_sequence = 2,
      hooks = [OnStart 1, OnStart 2, OnUpdate 1 Zero, OnUpdate 2 Zero]\<rparr> \<and>
   OnStop 2 \<in> set (drop 4 (hooks (processRemovedSystems
     \<lparr>systems = [(0, ISystem 1 1 [RemoveSystem 2]), (1, ISystem 2 2 [])],
      removedSystems = [2], addedSystems = [], next_sequence = 2,
      hooks = [OnStart 1, OnStart 2, OnUpdate 1 Zero, OnUpdate 2 Zero]\<rparr>))) \<and>
   processRemovedSystems
     \<lparr>systems = [(0, ISystem 1 1 [RemoveSystem 2]), (1, ISystem 2 2 [])],
      removedSystems = [2], addedSystems = [], next_sequence = 2,
      hooks = [OnStart 1, OnStart 2, OnUpdate 1 Zero, OnUpdate 2 Zero]\<rparr> =
     \<lparr>systems = [(0, ISystem 1 1 [RemoveSystem 2])],
      removedSystems = [], addedSystems = [], next_sequence = 2,
      hooks = [OnStart 1, OnStart 2, OnUpdate 1 Zero, OnUpdate 2 Zero, OnStop 2]\<rparr>"
proof -
  let ?m = "\<lparr>systems = [(0, ISystem 1 1 [RemoveSystem 2]), (1, ISystem 2 2 [])],
      removedSystems = [], addedSystems = [], next_sequence = 2,
      hooks = [OnStart 1, OnStart 2 :: deltaTime hook]\<rparr>"
  let ?u = "\<lparr>systems = [(0, ISystem 1 1 [RemoveSystem 2]), (1, ISystem 2 2 [])],
      removedSystems = [2], addedSystems = [], next_sequence = 2,
      hooks = [OnStart 1, OnStart 2, OnUpdate 1 Zero, OnUpdate 2 Zero]\<rparr>"
  have pre: "(0, ISystem 1 1 [RemoveSystem 2]) \<in> set (systems ?m) \<and>
     RemoveSystem 2 \<in> set (onUpdate (snd (0 :: nat, ISystem 1 1 [RemoveSystem 2]))) \<and>
     2 \<in> set (active_handles ?m)"
    by (simp add: active_handles_def)
  have upd: "update Zero ?m = ?u"
    by (simp add: scheduler_defs)
  from update_defers_mutation [of Zero ?m] pre
  have "OnStop 2 \<in> set (drop (length (hooks (update Zero ?m)))
                        (hooks (processRemovedSystems (update Zero ?m))))"
    by blast
  then have "OnStop 2 \<in> set (drop 4 (hooks (processRemovedSystems ?u)))"
    unfolding upd by (simp add: eval_nat_numeral)
  moreover have "processRemovedSystems ?u =
     \<lparr>systems = [(0, ISystem 1 1 [RemoveSystem 2])],
      removedSystems = [], addedSystems = [], next_sequence = 2,
      hooks = [OnStart 1, OnStart 2, OnUpdate 1 Zero, OnUpdate 2 Zero, OnStop 2]\<rparr>"
    by (simp add: scheduler_defs)
  ultimately show ?thesis using pre upd by simp
qed

text \<open>
  Claim C8. \<open>stop\<close> invokes \<open>onStop\<close> once for each element of the active set, in
  order, and nothing else; the active set and both queues are untouched, so no system
  goes through the remove-queue. As the active systems are distinct objects, each of
  their addresses receives \<open>onStop\<close> exactly once and no other address receives it.
\<close>

theorem stop_calls_each_once:
  "hooks (stop m) = hooks m @ map (\<lambda>e. OnStop (address (snd e))) (systems m) \<and>
   systems (stop m) = systems m \<and>
   removedSystems (stop m) = removedSystems m \<and>
   addedSystems (stop m) = addedSystems m \<and>
   (distinct (active_handles m) \<longrightarrow>
      (\<forall>h. count_list (drop (length (hooks m)) (hooks (stop m))) (OnStop h) =
           (if h \<in> set (active_handles m) then 1 else 0)))"
  by (simp add: stop_def count_list_OnStop active_handles_def count_list_distinct)

theorem stop_calls_each_once_witness:
  "distinct (active_handles
     \<lparr>systems = [(1, ISystem 2 5 []), (2, ISystem 3 5 []), (0, ISystem 1 10 [])],
      removedSystems = [], addedSystems = [], next_sequence = 3,
      hooks = [OnStart 1, OnStart 2, OnStart 3 :: deltaTime hook]\<rparr>) \<and>
   hooks (stop
     \<lparr>systems = [(1, ISystem 2 5 []), (2, ISystem 3 5 []), (0, ISystem 1 10 [])],
      removedSystems = [], addedSystems = [], next_sequence = 3,
      hooks = [OnStart 1, OnStart 2, OnStart 3 :: deltaTime hook]\<rparr>) =
     [OnStart 1, OnStart 2, OnStart 3, OnStop 2, OnStop 3, OnStop 1] \<and>
   count_list [OnStop 2, OnStop 3, OnStop 1 :: deltaTime hook] (OnStop 3) = 1 \<and>
   count_list [OnStop 2, OnStop 3, OnStop 1 :: deltaTime hook] (OnStop 7) = 0"
proof -
  let ?m = "\<lparr>systems = [(1, ISystem 2 5 []), (2, ISystem 3 5 []), (0, ISystem 1 10 [])],
      removedSystems = [], addedSystems = [], next_sequence = 3,
      hooks = [OnStart 1, OnStart 2, OnStart 3 :: deltaTime hook]\<rparr>"
  have d: "distinct (active_handles ?m)" by (simp add: active_handles_def)
  from stop_calls_each_once [of ?m] d
  have h: "hooks (stop ?m) = hooks ?m @ map (\<lambda>e. OnStop (address (snd e))) (systems ?m)"
    and c: "\<forall>h. count_list (drop (length (hooks ?m)) (hooks (stop ?m))) (OnStop h) =
           (if h \<in> set (active_handles ?m) then 1 else 0)"
    by blast+
  from c have "count_list (drop (length (hooks ?m)) (hooks (stop ?m))) (OnStop 3) =
           (if 3 \<in> set (active_handles ?m) then 1 else 0)"
    "count_list (drop (length (hooks ?m)) (hooks (stop ?m))) (OnStop 7) =
           (if 7 \<in> set (active_handles ?m) then 1 else 0)"
    by blast+
  with d h show ?thesis
    unfolding h by (simp add: active_handles_def)
qed

section \<open>Properties of the main loop\<close>

lemma run_loop_trace:
  "run_loop dt clock fs =
     (if \<exists>f \<in> set fs. needToExit f
      then Some (concat (map tick_calls
                  (take (length (takeWhile (\<lambda>f. \<not> needToExit f) fs))
                     (dt # map (\<lambda>f. Measured (int (update_ticks f))) fs)))
                 @ [WindowUpdate])
      else None)"
proof (induction fs arbitrary: dt clock)
  case Nil
  then show ?case by simp
next
  case (Cons f fs)
  show ?case
  proof (cases "needToExit f")
    case True
    then show ?thesis by simp
  next
    case False
    then show ?thesis
      by (simp add: Cons Let_def tick_calls_def)
  qed
qed

lemma update_arguments_append:
  "update_arguments (xs @ ys) = update_arguments xs @ update_arguments ys"
  by (induction xs rule: update_arguments.induct) simp_all

lemma update_arguments_ticks:
  "update_arguments (concat (map tick_calls dts)) = dts"
  by (induction dts) (simp_all add: tick_calls_def)

lemma run_two_frames:
  "run 100 [\<lparr>needToExit = False, window_ticks = 3, added_ticks = 1, removed_ticks = 1,
              update_ticks = 7\<rparr>,
            \<lparr>needToExit = False, window_ticks = 2, added_ticks = 0, removed_ticks = 4,
              update_ticks = 9\<rparr>,
            \<lparr>needToExit = True, window_ticks = 1, added_ticks = 0, removed_ticks = 0,
              update_ticks = 0\<rparr>] =
     Some [WindowUpdate, ProcessAddedSystems, ProcessRemovedSystems, Update Zero,
           WindowUpdate, ProcessAddedSystems, ProcessRemovedSystems, Update (Measured 7),
           WindowUpdate, Stop]"
  by (simp add: run_def)

text \<open>
  Claim C9. \<open>run\<close> fails to return exactly when the window never asks to exit. When it
  returns, its calls are a sequence of complete passes, each of them
  \<open>m_window.update()\<close>, \<open>processAddedSystems()\<close>, \<open>processRemovedSystems()\<close>,
  \<open>update(dt)\<close> in this order, one pass per frame before the exit request, followed by
  the \<open>m_window.update()\<close> that asked to exit and by \<open>stop()\<close> as the last call.
\<close>

theorem run_call_order:
  "(run clock fs = None \<longleftrightarrow> (\<forall>f \<in> set fs. \<not> needToExit f)) \<and>
   (\<forall>calls. run clock fs = Some calls \<longrightarrow>
      (\<exists>dts. length dts = length (takeWhile (\<lambda>f. \<not> needToExit f) fs) \<and>
             calls = concat (map (\<lambda>dt. [WindowUpdate, ProcessAddedSystems,
                                         ProcessRemovedSystems, Update dt]) dts)
                     @ [WindowUpdate, Stop]))"
proof (intro conjI allI impI)
  show "run clock fs = None \<longleftrightarrow> (\<forall>f \<in> set fs. \<not> needToExit f)"
    by (simp add: run_def run_loop_trace)
next
  fix calls
  assume r: "run clock fs = Some calls"
  let ?n = "length (takeWhile (\<lambda>f. \<not> needToExit f) fs)"
  let ?dts = "take ?n (Zero # map (\<lambda>f. Measured (int (update_ticks f))) fs)"
  have "?n \<le> length fs" by (rule length_takeWhile_le)
  then have "length ?dts = ?n" by simp
  moreover from r have "calls = concat (map tick_calls ?dts) @ [WindowUpdate, Stop]"
    by (auto simp: run_def run_loop_trace split: if_splits)
  ultimately show "\<exists>dts. length dts = ?n \<and>
             calls = concat (map (\<lambda>dt. [WindowUpdate, ProcessAddedSystems,
                                         ProcessRemovedSystems, Update dt]) dts)
                     @ [WindowUpdate, Stop]"
    unfolding tick_calls_def by blast
qed

theorem run_call_order_witness:
  "\<exists>dts. length dts = 2 \<and>
     [WindowUpdate, ProcessAddedSystems, ProcessRemovedSystems, Update Zero,
      WindowUpdate, ProcessAddedSystems, ProcessRemovedSystems, Update (Measured 7),
      WindowUpdate, Stop] =
     concat (map (\<lambda>dt. [WindowUpdate, ProcessAddedSystems,
                         ProcessRemovedSystems, Update dt]) dts) @ [WindowUpdate, Stop]"
  using run_call_order [of 100
      "[\<lparr>needToExit = False, window_ticks = 3, added_ticks = 1, removed_ticks = 1,
              update_ticks = 7\<rparr>,
            \<lparr>needToExit = False, window_ticks = 2, added_ticks = 0, removed_ticks = 4,
              update_ticks = 9\<rparr>,
            \<lparr>needToExit = True, window_ticks = 1, added_ticks = 0, removed_ticks = 0,
              update_ticks = 0\<rparr>]"]
  unfolding run_two_frames by (simp add: eval_nat_numeral)

text \<open>
  Claim C10. When \<open>run\<close> returns, \<open>update\<close> was called once per frame before the exit
  request; the first call received 0 and every later call received the conversion of
  the ticks the \<open>update\<close> of the frame before took. Neither the starting clock value
  nor the ticks spent in the window, in \<open>processAddedSystems\<close> or in
  \<open>processRemovedSystems\<close> enter the value.
\<close>

theorem update_delta_time:
  assumes "run clock fs = Some calls"
  shows "length (update_arguments calls) = length (takeWhile (\<lambda>f. \<not> needToExit f) fs) \<and>
     (\<forall>i < length (update_arguments calls).
        update_arguments calls ! i =
          (if i = 0 then Zero else Measured (int (update_ticks (fs ! (i - 1))))))"
proof -
  let ?n = "length (takeWhile (\<lambda>f. \<not> needToExit f) fs)"
  let ?dts = "take ?n (Zero # map (\<lambda>f. Measured (int (update_ticks f))) fs)"
  have n: "?n \<le> length fs" by (rule length_takeWhile_le)
  from assms have "calls = concat (map tick_calls ?dts) @ [WindowUpdate, Stop]"
    by (auto simp: run_def run_loop_trace split: if_splits)
  then have args: "update_arguments calls = ?dts"
    by (simp add: update_arguments_append update_arguments_ticks)
  have "?dts ! i = (if i = 0 then Zero else Measured (int (update_ticks (fs ! (i - 1)))))"
    if "i < ?n" for i
    using that n by (cases i) auto
  with n show ?thesis unfolding args by simp
qed

theorem update_delta_time_witness:
  "run 100 [\<lparr>needToExit = False, window_ticks = 3, added_ticks = 1, removed_ticks = 1,
              update_ticks = 7\<rparr>,
            \<lparr>needToExit = False, window_ticks = 2, added_ticks = 0, removed_ticks = 4,
              update_ticks = 9\<rparr>,
            \<lparr>needToExit = True, window_ticks = 1, added_ticks = 0, removed_ticks = 0,
              update_ticks = 0\<rparr>] =
     Some [WindowUpdate, ProcessAddedSystems, ProcessRemovedSystems, Update Zero,
           WindowUpdate, ProcessAddedSystems, ProcessRemovedSystems, Update (Measured 7),
           WindowUpdate, Stop] \<and>
   update_arguments [WindowUpdate, ProcessAddedSystems, ProcessRemovedSystems, Update Zero,
           WindowUpdate, ProcessAddedSystems, ProcessRemovedSystems, Update (Measured 7),
           WindowUpdate, Stop] ! 1 = Measured 7"
proof -
  from update_delta_time [OF run_two_frames]
  have "\<forall>i < length (update_arguments [WindowUpdate, ProcessAddedSystems, ProcessRemovedSystems, Update Zero,
           WindowUpdate, ProcessAddedSystems, ProcessRemovedSystems, Update (Measured 7),
           WindowUpdate, Stop]).
        update_arguments [WindowUpdate, ProcessAddedSystems, ProcessRemovedSystems, Update Zero,
           WindowUpdate, ProcessAddedSystems, ProcessRemovedSystems, Update (Measured 7),
           WindowUpdate, Stop] ! i =
          (if i = 0 then Zero else Measured (int (update_ticks ([\<lparr>needToExit = False, window_ticks = 3, added_ticks = 1, removed_ticks = 1,
              update_ticks = 7\<rparr>,
            \<lparr>needToExit = False, window_ticks = 2, added_ticks = 0, removed_ticks = 4,
              update_ticks = 9\<rparr>,
            \<lparr>needToExit = True, window_ticks = 1, added_ticks = 0, removed_ticks = 0,
              update_ticks = 0\<rparr>] ! (i - 1)))))"
    by blast
  then have "1 < length (update_arguments [WindowUpdate, ProcessAddedSystems, ProcessRemovedSystems, Update Zero,
           WindowUpdate, ProcessAddedSystems, ProcessRemovedSystems, Update (Measured 7),
           WindowUpdate, Stop]) \<longrightarrow>
     update_arguments [WindowUpdate, ProcessAddedSystems, ProcessRemovedSystems, Update Zero,
           WindowUpdate, ProcessAddedSystems, ProcessRemovedSystems, Update (Measured 7),
           WindowUpdate, Stop] ! 1 = Measured 7"
    by (auto dest!: spec [of _ 1])
  with run_two_frames show ?thesis by simp
qed

end
